theory Spec2Isabelle
  imports Main "HOL-Library.Word" "HOL-Library.Sublist"
begin

unbundle bit_operations_syntax

section \<open>Flash and the memory map\<close>

text \<open>
  The bootloader works on the on-board NOR flash. A flash cell is a byte; the flash is a
  function from cell address to byte. The C code names a cell in two ways:
  \<^verbatim>\<open>PFB_ADDR_AS_U32(sym)\<close> (the address of the linker symbol in the execute-in-place
  window, used by \<^verbatim>\<open>memcpy\<close>) and \<^verbatim>\<open>PFB_ADDR_WITH_XIP_OFFSET_AS_U32(sym)\<close> (the same
  cell as the flash driver addresses it). The model has one address per cell, so both
  forms of a symbol denote the same number.
\<close>

type_synonym byte = "8 word"
type_synonym flash = "nat \<Rightarrow> byte"

text \<open>The erase granularity \<^verbatim>\<open>FLASH_SECTOR_SIZE\<close> of \<^verbatim>\<open>hardware/flash.h\<close>.\<close>

definition FLASH_SECTOR_SIZE :: nat where
  "FLASH_SECTOR_SIZE = 4096"

text \<open>
  The link-time constants of \<^verbatim>\<open>linker_common/linker_definitions.h\<close>. Their values
  come from the linker script, so they are parameters of the model.
\<close>

record layout =
  FLASH_APP_START :: nat
  FLASH_DOWNLOAD_SLOT_START :: nat
  FLASH_SWAP_SPACE_LENGTH :: nat
  FLASH_INFO_START :: nat

text \<open>Arithmetic on \<^verbatim>\<open>uint32_t\<close> wraps around.\<close>

definition u32 :: "nat \<Rightarrow> nat" where
  "u32 x = x mod 2 ^ 32"

text \<open>\<^verbatim>\<open>memcpy(buf, (void *) a, n)\<close>: the \<open>n\<close> bytes read from address \<open>a\<close> on.\<close>

definition memcpy_from :: "flash \<Rightarrow> nat \<Rightarrow> nat \<Rightarrow> byte list" where
  "memcpy_from fl a n = map (\<lambda>k. fl (a + k)) [0..<n]"

text \<open>
  The flash driver of the SDK. Erasing sets every bit of the range; programming can only
  clear bits, so a programmed cell holds the conjunction of its old content and the data.
\<close>

definition in_range :: "nat \<Rightarrow> nat \<Rightarrow> nat \<Rightarrow> bool" where
  "in_range a n x \<longleftrightarrow> a \<le> x \<and> x < a + n"

definition flash_range_erase :: "flash \<Rightarrow> nat \<Rightarrow> nat \<Rightarrow> flash" where
  "flash_range_erase fl a n = (\<lambda>x. if in_range a n x then 0xFF else fl x)"

definition flash_range_program :: "flash \<Rightarrow> nat \<Rightarrow> byte list \<Rightarrow> flash" where
  "flash_range_program fl a buf =
     (\<lambda>x. if in_range a (length buf) x then fl x AND buf ! (x - a) else fl x)"

section \<open>The image swap: \<^verbatim>\<open>swap_images\<close>\<close>

text \<open>
  The clamp of the persisted swap size and the number of loop iterations:
  \<^verbatim>\<open>if (swap_size == 0 || swap_size > LENGTH) swap_size = LENGTH;\<close>
  \<^verbatim>\<open>SWAP_ITERATIONS = swap_size / FLASH_SECTOR_SIZE;\<close>
\<close>

definition clamp_swap_size :: "layout \<Rightarrow> nat \<Rightarrow> nat" where
  "clamp_swap_size L swap_size =
     (if swap_size = 0 \<or> swap_size > FLASH_SWAP_SPACE_LENGTH L
      then FLASH_SWAP_SPACE_LENGTH L else swap_size)"

definition SWAP_ITERATIONS :: "layout \<Rightarrow> nat \<Rightarrow> nat" where
  "SWAP_ITERATIONS L swap_size = clamp_swap_size L swap_size div FLASH_SECTOR_SIZE"

text \<open>One iteration of the loop body, for sector \<open>i\<close>.\<close>

definition swap_sector :: "layout \<Rightarrow> nat \<Rightarrow> flash \<Rightarrow> flash" where
  "swap_sector L i fl =
     (let swap_buff_from_downlaod_slot =
            memcpy_from fl (u32 (FLASH_DOWNLOAD_SLOT_START L + i * FLASH_SECTOR_SIZE))
              FLASH_SECTOR_SIZE;
          swap_buff_from_application_slot =
            memcpy_from fl (u32 (FLASH_APP_START L + i * FLASH_SECTOR_SIZE))
              FLASH_SECTOR_SIZE;
          fl1 = flash_range_erase fl
                  (u32 (FLASH_APP_START L + i * FLASH_SECTOR_SIZE)) FLASH_SECTOR_SIZE;
          fl2 = flash_range_erase fl1
                  (u32 (FLASH_DOWNLOAD_SLOT_START L + i * FLASH_SECTOR_SIZE)) FLASH_SECTOR_SIZE;
          fl3 = flash_range_program fl2
                  (u32 (FLASH_APP_START L + i * FLASH_SECTOR_SIZE)) swap_buff_from_downlaod_slot
      in flash_range_program fl3
           (u32 (FLASH_DOWNLOAD_SLOT_START L + i * FLASH_SECTOR_SIZE))
           swap_buff_from_application_slot)"

text \<open>\<^verbatim>\<open>for (uint32_t i = 0; i < SWAP_ITERATIONS; i++) { ... }\<close>, entered at \<open>i\<close>.\<close>

function swap_loop :: "layout \<Rightarrow> nat \<Rightarrow> nat \<Rightarrow> flash \<Rightarrow> flash" where
  "swap_loop L n i fl = (if i < n then swap_loop L n (Suc i) (swap_sector L i fl) else fl)"
  by pat_completeness auto
termination
  by (relation "measure (\<lambda>(L, n, i, fl). n - i)") auto

declare swap_loop.simps [simp del]

text \<open>
  \<^verbatim>\<open>swap_images\<close>. The swap size is what \<^verbatim>\<open>_pfb_firmware_swap_size()\<close> returned, a
  \<^verbatim>\<open>uint32_t\<close> read from the metadata store.
\<close>

definition swap_images :: "layout \<Rightarrow> nat \<Rightarrow> flash \<Rightarrow> flash" where
  "swap_images L swap_size fl = swap_loop L (SWAP_ITERATIONS L swap_size) 0 fl"

text \<open>
  The memory map the linker script guarantees (section 3 of the specification): both slots
  lie within the 32-bit address space, they do not overlap, and the sector at
  \<^verbatim>\<open>__FLASH_INFO_START\<close> overlaps neither.
\<close>

definition layout_ok :: "layout \<Rightarrow> bool" where
  "layout_ok L \<longleftrightarrow>
     FLASH_APP_START L + FLASH_SWAP_SPACE_LENGTH L \<le> 2 ^ 32 \<and>
     FLASH_DOWNLOAD_SLOT_START L + FLASH_SWAP_SPACE_LENGTH L \<le> 2 ^ 32 \<and>
     (FLASH_APP_START L + FLASH_SWAP_SPACE_LENGTH L \<le> FLASH_DOWNLOAD_SLOT_START L \<or>
      FLASH_DOWNLOAD_SLOT_START L + FLASH_SWAP_SPACE_LENGTH L \<le> FLASH_APP_START L) \<and>
     (FLASH_INFO_START L + FLASH_SECTOR_SIZE \<le> FLASH_APP_START L \<or>
      FLASH_APP_START L + FLASH_SWAP_SPACE_LENGTH L \<le> FLASH_INFO_START L) \<and>
     (FLASH_INFO_START L + FLASH_SECTOR_SIZE \<le> FLASH_DOWNLOAD_SLOT_START L \<or>
      FLASH_DOWNLOAD_SLOT_START L + FLASH_SWAP_SPACE_LENGTH L \<le> FLASH_INFO_START L)"

text \<open>The contract of section 4.C: the first \<open>n\<close> sectors of the two slots exchanged.\<close>

definition exchanged :: "layout \<Rightarrow> nat \<Rightarrow> flash \<Rightarrow> flash" where
  "exchanged L n fl =
     (\<lambda>x. if in_range (FLASH_APP_START L) (n * FLASH_SECTOR_SIZE) x
          then fl (FLASH_DOWNLOAD_SLOT_START L + (x - FLASH_APP_START L))
          else if in_range (FLASH_DOWNLOAD_SLOT_START L) (n * FLASH_SECTOR_SIZE) x
          then fl (FLASH_APP_START L + (x - FLASH_DOWNLOAD_SLOT_START L))
          else fl x)"


section \<open>Persistent metadata and the exported interface\<close>

text \<open>
  \<^verbatim>\<open>PFB_ALIGN_SIZE\<close> of \<^verbatim>\<open>pico_fota_bootloader.h\<close>, the size of
  \<^verbatim>\<open>upload_buffer\<close> and the unit of \<^verbatim>\<open>pfb_write_to_flash_aligned_256_bytes\<close>.
\<close>

definition PFB_ALIGN_SIZE :: nat where
  "PFB_ALIGN_SIZE = 256"

text \<open>
  Calls that leave the bootloader proper are recorded in the order in which \<^verbatim>\<open>main\<close>
  makes them: the interface of \<^verbatim>\<open>pico_fota_bootloader.h\<close>, the socket library and
  the final jump.
\<close>

datatype event =
    Ev_recovery_server
  | Ev_socket
  | Ev_listen
  | Ev_recv nat
  | Ev_send "byte list"
  | Ev_disconnect
  | Ev_close
  | Ev_watchdog_reboot
  | Ev_initialize_download_slot
  | Ev_write_to_flash_aligned_256_bytes "byte list" nat nat
  | Ev_firmware_sha256_check nat int
  | Ev_mark_download_slot_as_valid nat
  | Ev_mark_download_slot_as_invalid
  | Ev_perform_update
  | Ev_swap_images
  | Ev_firmware_commit
  | Ev_mark_pico_has_new_firmware
  | Ev_mark_pico_has_no_new_firmware
  | Ev_mark_is_after_rollback
  | Ev_mark_is_not_after_rollback
  | Ev_mark_should_rollback
  | Ev_jump_to_vtor

text \<open>
  The state of the device during one run of \<^verbatim>\<open>main\<close>: the flash, the metadata record
  of section 3, the two \<^verbatim>\<open>static\<close> locals of the upload code, and the calls so far.
\<close>

record sys =
  flash :: flash
  has_new_firmware :: bool
  after_rollback :: bool
  should_rollback :: bool
  has_firmware_to_swap :: bool
  swap_size :: nat
  upload_buffer :: "byte list"
  upload_pos :: nat
  trace :: "event list"

definition log :: "event \<Rightarrow> sys \<Rightarrow> sys" where
  "log e s = s\<lparr>trace := trace s @ [e]\<rparr>"

text \<open>
  Modelled from the spec: the metadata store of \<^verbatim>\<open>pico_fota_bootloader.c\<close>, which is
  not among the sources. Sections 3, 4.B and 6 give a getter and a setter for each flag;
  each function below touches the flag its name and the glossary say (commit clears
  \<open>should_rollback\<close>; a download slot marked valid is the firmware to swap, of the given
  size).
\<close>

definition pfb_should_rollback :: "sys \<Rightarrow> bool" where
  "pfb_should_rollback s = should_rollback s"

definition pfb_has_firmware_to_swap :: "sys \<Rightarrow> bool" where
  "pfb_has_firmware_to_swap s = has_firmware_to_swap s"

definition pfb_is_after_firmware_update :: "sys \<Rightarrow> bool" where
  "pfb_is_after_firmware_update s = has_new_firmware s"

definition pfb_is_after_rollback :: "sys \<Rightarrow> bool" where
  "pfb_is_after_rollback s = after_rollback s"

definition pfb_firmware_swap_size :: "sys \<Rightarrow> nat" where
  "pfb_firmware_swap_size s = swap_size s"

definition pfb_firmware_commit :: "sys \<Rightarrow> sys" where
  "pfb_firmware_commit s = log Ev_firmware_commit (s\<lparr>should_rollback := False\<rparr>)"

definition pfb_mark_should_rollback :: "sys \<Rightarrow> sys" where
  "pfb_mark_should_rollback s = log Ev_mark_should_rollback (s\<lparr>should_rollback := True\<rparr>)"

definition pfb_mark_pico_has_new_firmware :: "sys \<Rightarrow> sys" where
  "pfb_mark_pico_has_new_firmware s =
     log Ev_mark_pico_has_new_firmware (s\<lparr>has_new_firmware := True\<rparr>)"

definition pfb_mark_pico_has_no_new_firmware :: "sys \<Rightarrow> sys" where
  "pfb_mark_pico_has_no_new_firmware s =
     log Ev_mark_pico_has_no_new_firmware (s\<lparr>has_new_firmware := False\<rparr>)"

definition pfb_mark_is_after_rollback :: "sys \<Rightarrow> sys" where
  "pfb_mark_is_after_rollback s =
     log Ev_mark_is_after_rollback (s\<lparr>after_rollback := True\<rparr>)"

definition pfb_mark_is_not_after_rollback :: "sys \<Rightarrow> sys" where
  "pfb_mark_is_not_after_rollback s =
     log Ev_mark_is_not_after_rollback (s\<lparr>after_rollback := False\<rparr>)"

definition pfb_mark_download_slot_as_valid :: "nat \<Rightarrow> sys \<Rightarrow> sys" where
  "pfb_mark_download_slot_as_valid n s =
     log (Ev_mark_download_slot_as_valid n) (s\<lparr>has_firmware_to_swap := True, swap_size := n\<rparr>)"

definition pfb_mark_download_slot_as_invalid :: "sys \<Rightarrow> sys" where
  "pfb_mark_download_slot_as_invalid s =
     log Ev_mark_download_slot_as_invalid (s\<lparr>has_firmware_to_swap := False\<rparr>)"

text \<open>
  Modelled from the spec: the download-slot writers of \<^verbatim>\<open>pico_fota_bootloader.c\<close>
  (sections 4.A and 4.F). Initialising erases the download slot, so that it can be
  programmed; a write programs the buffer at the given offset of the slot. The return value
  of the write is only printed by \<^verbatim>\<open>main\<close>.
\<close>

definition pfb_initialize_download_slot :: "layout \<Rightarrow> sys \<Rightarrow> sys" where
  "pfb_initialize_download_slot L s =
     log Ev_initialize_download_slot
       (s\<lparr>flash := flash_range_erase (flash s) (FLASH_DOWNLOAD_SLOT_START L)
                      (FLASH_SWAP_SPACE_LENGTH L)\<rparr>)"

definition pfb_write_to_flash_aligned_256_bytes ::
    "layout \<Rightarrow> byte list \<Rightarrow> nat \<Rightarrow> nat \<Rightarrow> sys \<Rightarrow> sys" where
  "pfb_write_to_flash_aligned_256_bytes L buf offset len s =
     log (Ev_write_to_flash_aligned_256_bytes buf offset len)
       (s\<lparr>flash := flash_range_program (flash s) (FLASH_DOWNLOAD_SLOT_START L + offset)
                      (take len buf)\<rparr>)"

text \<open>
  \<^verbatim>\<open>swap_images\<close> as a step of \<^verbatim>\<open>main\<close>: it reads the swap size from the store and
  exchanges the sectors.
\<close>

definition do_swap_images :: "layout \<Rightarrow> sys \<Rightarrow> sys" where
  "do_swap_images L s =
     log Ev_swap_images (s\<lparr>flash := swap_images L (pfb_firmware_swap_size s) (flash s)\<rparr>)"

text \<open>
  How a run of \<^verbatim>\<open>main\<close> ends. \<^verbatim>\<open>jump_to_vtor\<close> does not return (\<open>Handoff\<close>);
  \<^verbatim>\<open>watchdog_reboot\<close> and \<^verbatim>\<open>pfb_perform_update\<close> reset the device (\<open>Reset\<close>).
  The recovery server of the GPIO build loops for ever: when the network has no further
  event for it, the run has not ended and the server is \<open>Listening\<close>. \<open>Undefined\<close> is
  a run that left defined C behaviour, \<open>Diverged\<close> one stuck in the upload loop.
\<close>

datatype outcome = Handoff | Reset | Listening | Undefined | Diverged

text \<open>
  The three branches of the final \<^verbatim>\<open>if\<close> chain of \<^verbatim>\<open>main\<close>, the same in both
  builds, followed by the invalidation of the download slot and the jump.
\<close>

definition boot_chain :: "layout \<Rightarrow> sys \<Rightarrow> outcome \<times> sys" where
  "boot_chain L s =
     (let s1 =
        (if pfb_should_rollback s then
           pfb_mark_is_after_rollback
             (pfb_mark_pico_has_no_new_firmware (pfb_firmware_commit (do_swap_images L s)))
         else if pfb_has_firmware_to_swap s then
           pfb_mark_should_rollback
             (pfb_mark_is_not_after_rollback
               (pfb_mark_pico_has_new_firmware (do_swap_images L s)))
         else
           pfb_mark_pico_has_no_new_firmware (pfb_firmware_commit s))
      in (Handoff, log Ev_jump_to_vtor (pfb_mark_download_slot_as_invalid s1)))"


section \<open>The recovery server\<close>

text \<open>Bytes of a string literal; a C string ends at its first NUL.\<close>

definition bytes_of :: "string \<Rightarrow> byte list" where
  "bytes_of cs = map of_char cs"

definition CRLF :: string where
  "CRLF = [CHR 0x0D, CHR 0x0A]"

definition cstr :: "byte list \<Rightarrow> byte list" where
  "cstr bs = takeWhile (\<lambda>b. b \<noteq> 0) bs"

text \<open>
  \<^verbatim>\<open>strstr(haystack, needle)\<close>: the offset of the first occurrence of the needle in the
  C string, \<open>None\<close> for a \<^verbatim>\<open>NULL\<close> result.
\<close>

fun find_sub :: "byte list \<Rightarrow> byte list \<Rightarrow> nat option" where
  "find_sub needle [] = (if needle = [] then Some 0 else None)"
| "find_sub needle (h # hs) =
     (if take (length needle) (h # hs) = needle then Some 0
      else map_option Suc (find_sub needle hs))"

definition strstr :: "byte list \<Rightarrow> string \<Rightarrow> nat option" where
  "strstr buf needle = find_sub (bytes_of needle) (cstr buf)"

text \<open>
  The recovery page of the GPIO build, one line per line of the C initialiser. It is sent
  with \<^verbatim>\<open>sizeof(page_recover)\<close>, that is with the NUL that ends the array.
\<close>

definition page_recover_gpio_text :: string where
  \<open>page_recover_gpio_text =
     ''HTTP/1.1 200 OK'' @ CRLF @ ''Content-Type: HTML'' @ CRLF @
     ''Content-Length: 983'' @ CRLF @ CRLF @
     ''<!DOCTYPE html><html lang="en"><head><meta charset="UTF-8"><title>DA Dongle</title></head><body>'' @
     ''<h1>SYSTEM RECOVERY</h1>'' @
     ''Booted in recovery mode.  A new firmware can be loaded here.<br><br>'' @
     ''This will take about 2 minutes.<br><br>'' @
     ''New firmware should boot successfully, after which refresh this page.<br><br>'' @
     ''<input type="file" id="input" onchange="upload()"><br><br>'' @
     ''  <script>'' @
     ''      function upload() {'' @
     ''          const input = document.getElementById('input');'' @
     ''          if (input.files.length > 0) {'' @
     ''              const rdr = new FileReader();'' @
     ''              rdr.onload = e => fetch('upload', {'' @
     ''                  method: 'POST','' @
     ''                  headers: {'Content-Type': 'application/octet-stream'},'' @
     ''                  body: e.target.result'' @
     ''              }).then(res => res.text()).catch(err => console.error('Error:', err));'' @
     ''              rdr.readAsArrayBuffer(input.files[0]);'' @
     ''          }'' @
     ''      }'' @
     ''  </script><br><br>'' @
     ''<button onclick="location.href='reboot'">REBOOT</button>&nbsp;&nbsp'' @
     ''</body></html>'' @ CRLF @ CRLF\<close>

definition page_recover_gpio :: "byte list" where
  "page_recover_gpio = bytes_of page_recover_gpio_text @ [0]"

text \<open>The recovery page of the flag-union build (\<^verbatim>\<open>bootloader.c\<close>).\<close>

definition page_recover_flags_text :: string where
  \<open>page_recover_flags_text =
     ''<!DOCTYPE html><html lang="en"><head><meta charset="UTF-8"><title>DA Dongle</title></head><body>'' @
     ''<h1>SYSTEM RECOVERY</h1>'' @
     ''Bootloader interrupted.  Would be running non-committed or rollback firmware.<br><br>'' @
     ''If device is no longer booting, it is likely that power was interrupted<br>'' @
     ''during the last device firmware update or rollback.<br><br>'' @
     ''A new firmware can be loaded here.  This will take about 2 minutes.<br><br>'' @
     ''New firmware should boot successfully, after which refresh this page or<br>'' @
     ''return to main pages.<br><br>'' @
     ''<input type="file" id="input" onchange="upload()"><br><br>'' @
     ''  <script>'' @
     ''      function upload() {'' @
     ''          const input = document.getElementById('input');'' @
     ''          if (input.files.length > 0) {'' @
     ''              const rdr = new FileReader();'' @
     ''              rdr.onload = e => fetch('upload', {'' @
     ''                  method: 'POST','' @
     ''                  headers: {'Content-Type': 'application/octet-stream'},'' @
     ''                  body: e.target.result'' @
     ''              }).then(res => res.text()).catch(err => console.error('Error:', err));'' @
     ''              rdr.readAsArrayBuffer(input.files[0]);'' @
     ''          }'' @
     ''      }'' @
     ''  </script>'' @
     ''</body></html>''\<close>

definition page_recover_flags :: "byte list" where
  "page_recover_flags = bytes_of page_recover_flags_text @ [0]"

text \<open>
  The socket. What the peer sends during one pass of the server loop is a list of bursts;
  the head burst is what the receive buffer of the W5x00 holds now, so
  \<^verbatim>\<open>getSn_RX_RSR\<close> is its length (an empty burst, or none at all: nothing has arrived).
  \<^verbatim>\<open>recv\<close> takes the requested number of bytes from it and leaves the rest as the
  head.
\<close>

type_synonym rx = "byte list list"

definition getSn_RX_RSR :: "rx \<Rightarrow> nat" where
  "getSn_RX_RSR r = (case r of [] \<Rightarrow> 0 | b # _ \<Rightarrow> length b)"

definition recv :: "nat \<Rightarrow> rx \<Rightarrow> byte list \<times> rx" where
  "recv n r =
     (case r of [] \<Rightarrow> ([], [])
      | b # rest \<Rightarrow> (take n b, if drop n b = [] then rest else drop n b # rest))"

text \<open>
  \<^verbatim>\<open>if (len > (int) sizeof(g_ethernet_buf)) len = sizeof(g_ethernet_buf) - 1;\<close>
\<close>

definition clamp_len :: "nat \<Rightarrow> nat" where
  "clamp_len len = (if len > 2048 then 2047 else len)"

text \<open>
  The inner loop of the upload:
  \<^verbatim>\<open>while (len && upload_pos < sizeof(upload_buffer)) { upload_buffer[upload_pos++] = *data++; len--; }\<close>
  on the bytes at \<^verbatim>\<open>data\<close>; it returns the bytes left, the buffer and the position.
\<close>

fun fill_buffer :: "byte list \<Rightarrow> byte list \<Rightarrow> nat \<Rightarrow> byte list \<times> byte list \<times> nat" where
  "fill_buffer [] buf pos = ([], buf, pos)"
| "fill_buffer (b # data) buf pos =
     (if pos < PFB_ALIGN_SIZE then fill_buffer data (buf[pos := b]) (Suc pos)
      else (b # data, buf, pos))"

text \<open>
  One pass of the outer loop \<^verbatim>\<open>while (len > 0) { ... }\<close>: fill the buffer, write it
  out when it is full, and ask the socket for more when the chunk is used up. The state of
  the loop is the chunk at \<^verbatim>\<open>data\<close>, the socket, \<^verbatim>\<open>upload_done\<close> and the device.
\<close>

definition upload_step ::
    "layout \<Rightarrow> byte list \<Rightarrow> rx \<Rightarrow> nat \<Rightarrow> sys \<Rightarrow> byte list \<times> rx \<times> nat \<times> sys" where
  "upload_step L data r upload_done s =
     (case fill_buffer data (upload_buffer s) (upload_pos s) of (data1, buf1, pos1) \<Rightarrow>
        let s1 = s\<lparr>upload_buffer := buf1, upload_pos := pos1\<rparr>;
            (upload_done2, s2) =
              (if pos1 = PFB_ALIGN_SIZE
               then (upload_done + pos1,
                     (pfb_write_to_flash_aligned_256_bytes L buf1 upload_done pos1 s1)
                       \<lparr>upload_pos := 0\<rparr>)
               else (upload_done, s1))
        in if data1 = []
           then (let len = getSn_RX_RSR r
                 in if len > 0
                    then (case recv (clamp_len len) r of (chunk, r') \<Rightarrow>
                            (chunk, r', upload_done2, log (Ev_recv (clamp_len len)) s2))
                    else ([], r, upload_done2, s2))
           else (data1, r, upload_done2, s2))"

text \<open>
  The measure that decreases with every pass: the bytes not yet consumed, counted twice,
  plus one while a full buffer waits to be written.
\<close>

definition upload_measure :: "byte list \<Rightarrow> rx \<Rightarrow> sys \<Rightarrow> nat" where
  "upload_measure data r s =
     2 * (length data + sum_list (map length r)) + (if upload_pos s = PFB_ALIGN_SIZE then 1 else 0)"

lemma fill_buffer_length:
  "fill_buffer data buf pos = (data1, buf1, pos1) \<Longrightarrow>
   length data1 \<le> length data \<and> (pos < PFB_ALIGN_SIZE \<and> data \<noteq> [] \<longrightarrow> length data1 < length data)"
proof (induction data buf pos rule: fill_buffer.induct)
  case (1 buf pos)
  then show ?case by simp
next
  case (2 b data buf pos)
  then show ?case by (cases "pos < PFB_ALIGN_SIZE") (auto simp add: le_Suc_eq)
qed

lemma fill_buffer_pos:
  "fill_buffer data buf pos = (data1, buf1, pos1) \<Longrightarrow> pos \<le> PFB_ALIGN_SIZE \<Longrightarrow>
   pos \<le> pos1 \<and> pos1 \<le> PFB_ALIGN_SIZE \<and> (pos = PFB_ALIGN_SIZE \<longrightarrow> data1 = data)"
proof (induction data buf pos rule: fill_buffer.induct)
  case (1 buf pos)
  then show ?case by simp
next
  case (2 b data buf pos)
  then show ?case by (cases "pos < PFB_ALIGN_SIZE") auto
qed

lemma recv_total:
  "recv n r = (chunk, r') \<Longrightarrow>
   length chunk + sum_list (map length r') \<le> sum_list (map length r)"
  by (auto simp add: recv_def split: list.splits if_splits)

lemma upload_step_decreases:
  assumes "data \<noteq> []" and "upload_pos s \<le> PFB_ALIGN_SIZE"
    and "upload_step L data r upload_done s = (data', r', upload_done', s')"
  shows "upload_measure data' r' s' < upload_measure data r s"
proof -
  obtain data1 buf1 pos1 where fb: "fill_buffer data (upload_buffer s) (upload_pos s) = (data1, buf1, pos1)"
    by (cases "fill_buffer data (upload_buffer s) (upload_pos s)") auto
  note len = fill_buffer_length [OF fb] and pos = fill_buffer_pos [OF fb assms(2)]
  have up: "upload_pos s' \<noteq> PFB_ALIGN_SIZE"
    using assms(3) pos
    by (auto simp add: upload_step_def fb Let_def log_def pfb_write_to_flash_aligned_256_bytes_def
          PFB_ALIGN_SIZE_def split: if_splits prod.splits)
  have rem: "length data' + sum_list (map length r') \<le> length data1 + sum_list (map length r)"
    using assms(3) recv_total
    by (auto simp add: upload_step_def fb Let_def split: if_splits prod.splits)
  show ?thesis
  proof (cases "upload_pos s < PFB_ALIGN_SIZE")
    case True
    with len assms(1) have "length data1 < length data" by simp
    with rem up show ?thesis by (simp add: upload_measure_def)
  next
    case False
    with assms(2) have eq: "upload_pos s = PFB_ALIGN_SIZE" by simp
    with pos have "data1 = data" by simp
    with rem up eq show ?thesis by (simp add: upload_measure_def)
  qed
qed

text \<open>
  The outer loop. \<open>upload_pos\<close> never exceeds the size of the buffer when the loop is
  entered from \<^verbatim>\<open>main\<close>; from a state where it did, the C loop would copy nothing, write
  nothing and never end, which is the result \<open>None\<close>.
\<close>

function upload_loop ::
    "layout \<Rightarrow> byte list \<Rightarrow> rx \<Rightarrow> nat \<Rightarrow> sys \<Rightarrow> (nat \<times> rx \<times> sys) option" where
  "upload_loop L data r upload_done s =
     (if data = [] then Some (upload_done, r, s)
      else if upload_pos s > PFB_ALIGN_SIZE then None
      else (case upload_step L data r upload_done s of
              (data', r', upload_done', s') \<Rightarrow> upload_loop L data' r' upload_done' s'))"
  by pat_completeness auto
termination
proof (relation "measure (\<lambda>(L, data, r, upload_done, s). upload_measure data r s)")
  show "wf (measure (\<lambda>(L, data, r, upload_done, s). upload_measure data r s))" by simp
next
  fix L :: layout and data :: "byte list" and r :: rx and upload_done :: nat and s :: sys
    and x1 :: "byte list" and x2 :: "rx \<times> nat \<times> sys" and x1a :: rx and x2a :: "nat \<times> sys"
    and x1b :: nat and x2b :: sys
  assume "data \<noteq> []" and "\<not> PFB_ALIGN_SIZE < upload_pos s"
    and "(x1, x2) = upload_step L data r upload_done s"
    and "(x1a, x2a) = x2" and "(x1b, x2b) = x2a"
  then have "upload_measure x1 x1a x2b < upload_measure data r s"
    by (intro upload_step_decreases [of data s L r upload_done x1 x1a x1b x2b]) auto
  then show "((L, x1, x1a, x1b, x2b), (L, data, r, upload_done, s))
      \<in> measure (\<lambda>(L, data, r, upload_done, s). upload_measure data r s)"
    by simp
qed

declare upload_loop.simps [simp del]


section \<open>The two builds of \<^verbatim>\<open>main\<close>\<close>

text \<open>
  The sources hold two versions of the bootloader. In the GPIO build the recovery server
  runs when a button is held at reset, and it never returns to the boot chain. In the
  flag-union build (\<^verbatim>\<open>bootloader.c\<close>) the server runs whenever one of the four flags is
  set, and gives way to the boot chain when two seconds pass without anyone fetching the
  page.

  \<^verbatim>\<open>pfb_firmware_sha256_check\<close> belongs to the library and hashes with an external
  primitive; the model takes it as a parameter, a function of the flash and the length
  that returns the C result (0 for a match).
\<close>

type_synonym sha256_check = "flash \<Rightarrow> nat \<Rightarrow> int"

datatype step = Continue | Stop outcome

text \<open>
  From \<^verbatim>\<open>char *data = strstr(buf, "\r\n\r\n") + 4\<close> to the end of the upload loop, the
  same in both builds: the body starts after the header terminator of the first chunk; the
  download slot is initialised and the body streamed into it. Without a terminator
  \<^verbatim>\<open>strstr\<close> returns \<^verbatim>\<open>NULL\<close> and the pointer arithmetic that follows is undefined.
\<close>

definition post_body :: "layout \<Rightarrow> byte list \<Rightarrow> rx \<Rightarrow> sys \<Rightarrow> outcome + nat \<times> sys" where
  "post_body L buf r s =
     (case strstr buf (CRLF @ CRLF) of
        None \<Rightarrow> Inl Undefined
      | Some p \<Rightarrow>
          (case upload_loop L (drop (p + 4) buf) r 0 (pfb_initialize_download_slot L s) of
             None \<Rightarrow> Inl Diverged
           | Some (upload_done, r', s') \<Rightarrow> Inr (upload_done, s')))"

subsection \<open>The GPIO build\<close>

text \<open>The branch taken when the digest matches: swap the image in, commit it, start it.\<close>

definition install_upload :: "layout \<Rightarrow> nat \<Rightarrow> sys \<Rightarrow> sys" where
  "install_upload L upload_done s =
     log Ev_jump_to_vtor
       (pfb_mark_download_slot_as_invalid
         (pfb_mark_is_not_after_rollback
           (pfb_mark_pico_has_no_new_firmware
             (pfb_firmware_commit
               (do_swap_images L
                 (pfb_mark_download_slot_as_valid upload_done s))))))"

text \<open>
  One pass of \<^verbatim>\<open>while (1) { ... }\<close>. A first chunk of exactly 2048 bytes makes
  \<^verbatim>\<open>g_ethernet_buf[len] = 0\<close> write behind the array.
\<close>

definition recovery_iteration_gpio :: "layout \<Rightarrow> sha256_check \<Rightarrow> rx \<Rightarrow> sys \<Rightarrow> step \<times> sys" where
  "recovery_iteration_gpio L chk r s =
     (let s1 = log Ev_listen (log Ev_socket s);
          len = getSn_RX_RSR r
      in if len = 0 then (Continue, s1)
         else (case recv (clamp_len len) r of (buf, r1) \<Rightarrow>
           let s2 = log (Ev_recv (clamp_len len)) s1
           in if length buf \<ge> 2048 then (Stop Undefined, s2)
              else if strstr buf ''GET'' \<noteq> None \<or> strstr buf ''get'' \<noteq> None then
                (if strstr buf ''REBOOT'' \<noteq> None \<or> strstr buf ''reboot'' \<noteq> None
                 then (Stop Reset, log Ev_watchdog_reboot s2)
                 else (Continue,
                       log Ev_close (log Ev_disconnect (log (Ev_send page_recover_gpio) s2))))
              else if strstr buf ''POST'' \<noteq> None \<or> strstr buf ''post'' \<noteq> None then
                (case post_body L buf r1 s2 of
                   Inl out \<Rightarrow> (Stop out, s2)
                 | Inr (upload_done, s3) \<Rightarrow>
                     let ret_sha256 = chk (flash s3) upload_done;
                         s4 = log (Ev_firmware_sha256_check upload_done ret_sha256) s3
                     in if ret_sha256 \<noteq> 0 then (Continue, log Ev_close s4)
                        else (Stop Handoff, install_upload L upload_done s4))
              else (Continue, log Ev_close s2)))"

text \<open>The server loop over what the network does, one entry per pass.\<close>

fun recovery_loop_gpio :: "layout \<Rightarrow> sha256_check \<Rightarrow> rx list \<Rightarrow> sys \<Rightarrow> outcome \<times> sys" where
  "recovery_loop_gpio L chk [] s = (Listening, s)"
| "recovery_loop_gpio L chk (r # net) s =
     (case recovery_iteration_gpio L chk r s of
        (Continue, s') \<Rightarrow> recovery_loop_gpio L chk net s'
      | (Stop out, s') \<Rightarrow> (out, s'))"

text \<open>
  The two pins are read at reset and, if either is low, again after the LED has blinked
  for four seconds (\<^verbatim>\<open>gpio_get\<close> returns true for a high pin).
\<close>

record gpio =
  pin0_at_reset :: bool
  pin8_at_reset :: bool
  pin0_after_blink :: bool
  pin8_after_blink :: bool

definition recovery_trigger_gpio :: "gpio \<Rightarrow> bool" where
  "recovery_trigger_gpio g =
     (let recover = \<not> pin0_at_reset g \<or> \<not> pin8_at_reset g
      in if recover then \<not> pin0_after_blink g \<or> \<not> pin8_after_blink g else recover)"

definition main_gpio ::
    "layout \<Rightarrow> sha256_check \<Rightarrow> gpio \<Rightarrow> rx list \<Rightarrow> sys \<Rightarrow> outcome \<times> sys" where
  "main_gpio L chk g net s =
     (if recovery_trigger_gpio g then recovery_loop_gpio L chk net (log Ev_recovery_server s)
      else boot_chain L s)"

subsection \<open>The flag-union build\<close>

text \<open>
  Modelled from the spec: \<^verbatim>\<open>pfb_perform_update\<close> of \<^verbatim>\<open>pico_fota_bootloader.c\<close>, which
  soft-resets into the bootloader (section 6).

  One pass of \<^verbatim>\<open>while ((time_us_64() - start < WAIT) || contact) { ... }\<close>; the second
  component of the result tells whether the pass has set \<^verbatim>\<open>contact\<close>.
\<close>

definition recovery_iteration_flags ::
    "layout \<Rightarrow> sha256_check \<Rightarrow> rx \<Rightarrow> sys \<Rightarrow> step \<times> bool \<times> sys" where
  "recovery_iteration_flags L chk r s =
     (let s1 = log Ev_listen (log Ev_socket s);
          len = getSn_RX_RSR r
      in if len = 0 then (Continue, False, s1)
         else (case recv (clamp_len len) r of (buf, r1) \<Rightarrow>
           let s2 = log (Ev_recv (clamp_len len)) s1
           in if length buf \<ge> 2048 then (Stop Undefined, False, s2)
              else if strstr buf ''GET /recover'' \<noteq> None then
                (Continue, True,
                 log Ev_close (log Ev_disconnect (log (Ev_send page_recover_flags) s2)))
              else if strstr buf ''POST'' \<noteq> None then
                (case post_body L buf r1 s2 of
                   Inl out \<Rightarrow> (Stop out, False, s2)
                 | Inr (upload_done, s3) \<Rightarrow>
                     let ret_sha256 = chk (flash s3) upload_done;
                         s4 = log (Ev_firmware_sha256_check upload_done ret_sha256) s3
                     in if ret_sha256 \<noteq> 0 then (Continue, False, log Ev_close s4)
                        else (Stop Reset,
                              False, log Ev_perform_update (pfb_mark_download_slot_as_valid 0 s4)))
              else (Continue, False, s2)))"

text \<open>
  The server loop. Each pass comes with the value of \<^verbatim>\<open>time_us_64() - start < WAIT\<close>
  at its loop test. When the network has nothing more to offer, a server that was contacted
  listens for ever, and one that was not leaves the loop as soon as the two seconds are over.
  The result \<open>None\<close> is the loop left, with the boot chain to follow.
\<close>

fun recovery_loop_flags ::
    "layout \<Rightarrow> sha256_check \<Rightarrow> bool \<Rightarrow> (bool \<times> rx) list \<Rightarrow> sys \<Rightarrow> outcome option \<times> sys" where
  "recovery_loop_flags L chk contact [] s = (if contact then (Some Listening, s) else (None, s))"
| "recovery_loop_flags L chk contact ((in_window, r) # net) s =
     (if in_window \<or> contact then
        (case recovery_iteration_flags L chk r s of
           (Continue, c, s') \<Rightarrow> recovery_loop_flags L chk (contact \<or> c) net s'
         | (Stop out, c, s') \<Rightarrow> (Some out, s'))
      else (None, s))"

definition recovery_trigger_flags :: "sys \<Rightarrow> bool" where
  "recovery_trigger_flags s \<longleftrightarrow>
     pfb_should_rollback s \<or> pfb_has_firmware_to_swap s \<or>
     pfb_is_after_firmware_update s \<or> pfb_is_after_rollback s"

definition main_flags ::
    "layout \<Rightarrow> sha256_check \<Rightarrow> (bool \<times> rx) list \<Rightarrow> sys \<Rightarrow> outcome \<times> sys" where
  "main_flags L chk net s =
     (if recovery_trigger_flags s then
        (case recovery_loop_flags L chk False net (log Ev_recovery_server s) of
           (None, s') \<Rightarrow> boot_chain L s'
         | (Some out, s') \<Rightarrow> (out, s'))
      else boot_chain L s)"


section \<open>Notions used to state the properties\<close>

text \<open>The calls made between two states of one run.\<close>

definition new_events :: "sys \<Rightarrow> sys \<Rightarrow> event list" where
  "new_events s s' = drop (length (trace s)) (trace s')"

text \<open>The five fields of the metadata record.\<close>

definition metadata :: "sys \<Rightarrow> bool \<times> bool \<times> bool \<times> bool \<times> nat" where
  "metadata s =
     (has_new_firmware s, after_rollback s, should_rollback s, has_firmware_to_swap s, swap_size s)"

text \<open>
  The bytes the upload loop takes from the connection: the rest of the first chunk and the
  bursts up to the first moment at which the receive buffer is found empty. A first chunk
  without body bytes ends the upload before it begins.
\<close>

definition stream :: "byte list \<Rightarrow> rx \<Rightarrow> byte list" where
  "stream data r = (if data = [] then [] else data @ concat (takeWhile (\<lambda>b. b \<noteq> []) r))"

text \<open>What the upload loop has in hand: the bytes already buffered, then the stream.\<close>

definition pending :: "sys \<Rightarrow> byte list \<Rightarrow> rx \<Rightarrow> byte list" where
  "pending s data r = take (upload_pos s) (upload_buffer s) @ stream data r"

fun is_write :: "event \<Rightarrow> bool" where
  "is_write (Ev_write_to_flash_aligned_256_bytes buf offset len) = True"
| "is_write e = False"

fun is_recv :: "event \<Rightarrow> bool" where
  "is_recv (Ev_recv n) = True"
| "is_recv e = False"

text \<open>The writes of the complete blocks of \<open>bs\<close>, at consecutive offsets from \<open>off\<close>.\<close>

function block_writes :: "nat \<Rightarrow> byte list \<Rightarrow> event list" where
  "block_writes off bs =
     (if length bs < PFB_ALIGN_SIZE then []
      else Ev_write_to_flash_aligned_256_bytes (take PFB_ALIGN_SIZE bs) off PFB_ALIGN_SIZE
             # block_writes (off + PFB_ALIGN_SIZE) (drop PFB_ALIGN_SIZE bs))"
  by pat_completeness auto
termination
  by (relation "measure (\<lambda>(off, bs). length bs)") (auto simp add: PFB_ALIGN_SIZE_def)

declare block_writes.simps [simp del]

text \<open>
  How a pass of the server loop reads a request: the first chunk it receives, and what is
  left on the socket after it.
\<close>

definition first_chunk :: "rx \<Rightarrow> byte list" where
  "first_chunk r = fst (recv (clamp_len (getSn_RX_RSR r)) r)"

definition later_bursts :: "rx \<Rightarrow> rx" where
  "later_bursts r = snd (recv (clamp_len (getSn_RX_RSR r)) r)"

text \<open>
  The requests the GPIO build recognises. A request is served when something has arrived
  and the first chunk leaves room for the terminating NUL.
\<close>

definition served :: "rx \<Rightarrow> bool" where
  "served r \<longleftrightarrow> 0 < getSn_RX_RSR r \<and> length (first_chunk r) < 2048"



definition gpio_post_request :: "rx \<Rightarrow> bool" where
  "gpio_post_request r \<longleftrightarrow>
     served r \<and>
     strstr (first_chunk r) ''GET'' = None \<and> strstr (first_chunk r) ''get'' = None \<and>
     (strstr (first_chunk r) ''POST'' \<noteq> None \<or> strstr (first_chunk r) ''post'' \<noteq> None) \<and>
     strstr (first_chunk r) (CRLF @ CRLF) \<noteq> None"


definition flags_post_request :: "rx \<Rightarrow> bool" where
  "flags_post_request r \<longleftrightarrow>
     served r \<and>
     strstr (first_chunk r) ''GET /recover'' = None \<and>
     strstr (first_chunk r) ''POST'' \<noteq> None \<and>
     strstr (first_chunk r) (CRLF @ CRLF) \<noteq> None"

text \<open>
  The part of the first chunk behind the header terminator, and the body of a POST as the
  upload loop reads it.
\<close>

definition post_data :: "rx \<Rightarrow> byte list" where
  "post_data r =
     (case strstr (first_chunk r) (CRLF @ CRLF) of
        None \<Rightarrow> [] | Some p \<Rightarrow> drop (p + 4) (first_chunk r))"

definition post_stream :: "rx \<Rightarrow> byte list" where
  "post_stream r = stream (post_data r) (later_bursts r)"

text \<open>
  The static buffer between two uploads: an array of \<^verbatim>\<open>PFB_ALIGN_SIZE\<close> bytes with a
  position inside it. It holds at reset, where the position is 0.
\<close>

definition buffer_ok :: "sys \<Rightarrow> bool" where
  "buffer_ok s \<longleftrightarrow> upload_pos s < PFB_ALIGN_SIZE \<and> length (upload_buffer s) = PFB_ALIGN_SIZE"

text \<open>
  What an upload amounts to: the bytes in hand are the buffered ones followed by the body;
  the complete blocks among them are counted and programmed into the erased download slot.
\<close>

definition upload_bytes :: "sys \<Rightarrow> rx \<Rightarrow> byte list" where
  "upload_bytes s r = take (upload_pos s) (upload_buffer s) @ post_stream r"

definition upload_count :: "sys \<Rightarrow> rx \<Rightarrow> nat" where
  "upload_count s r = PFB_ALIGN_SIZE * (length (upload_bytes s r) div PFB_ALIGN_SIZE)"

definition uploaded_flash :: "layout \<Rightarrow> sys \<Rightarrow> rx \<Rightarrow> flash" where
  "uploaded_flash L s r =
     flash_range_program
       (flash_range_erase (flash s) (FLASH_DOWNLOAD_SLOT_START L) (FLASH_SWAP_SPACE_LENGTH L))
       (FLASH_DOWNLOAD_SLOT_START L) (take (upload_count s r) (upload_bytes s r))"

text \<open>The events of an upload: reads from the socket and writes of blocks.\<close>

definition upload_events :: "event list \<Rightarrow> bool" where
  "upload_events ev \<longleftrightarrow> list_all (\<lambda>e. is_write e \<or> is_recv e) ev"

text \<open>The calls that follow the first occurrence of an event.\<close>

definition after_event :: "event \<Rightarrow> event list \<Rightarrow> event list" where
  "after_event e tr = tl (dropWhile (\<lambda>x. x \<noteq> e) tr)"

text \<open>The calls that exchange the slots or write to the metadata store.\<close>

fun store_or_swap :: "event \<Rightarrow> bool" where
  "store_or_swap Ev_swap_images = True"
| "store_or_swap Ev_firmware_commit = True"
| "store_or_swap (Ev_mark_download_slot_as_valid n) = True"
| "store_or_swap Ev_mark_download_slot_as_invalid = True"
| "store_or_swap Ev_mark_pico_has_new_firmware = True"
| "store_or_swap Ev_mark_pico_has_no_new_firmware = True"
| "store_or_swap Ev_mark_is_after_rollback = True"
| "store_or_swap Ev_mark_is_not_after_rollback = True"
| "store_or_swap Ev_mark_should_rollback = True"
| "store_or_swap Ev_perform_update = True"
| "store_or_swap e = False"



text \<open>
  The boot decision of section 4.E of the specification: the four actions, the table that
  selects one of them, and the calls by which a run shows that it has performed an action.
  Recovery shows in the start of the recovery server; each of the other three is the
  sequence of calls with which the run ends.
\<close>

datatype action = Recovery | Rollback | Swap_and_arm | Passthrough

definition decision_table :: "bool \<Rightarrow> bool \<Rightarrow> bool \<Rightarrow> action" where
  "decision_table recovery_trigger rollback_flag firmware_flag =
     (if recovery_trigger then Recovery
      else if rollback_flag then Rollback
      else if firmware_flag then Swap_and_arm
      else Passthrough)"

fun action_calls :: "action \<Rightarrow> event list" where
  "action_calls Recovery = [Ev_recovery_server]"
| "action_calls Rollback =
     [Ev_swap_images, Ev_firmware_commit, Ev_mark_pico_has_no_new_firmware,
      Ev_mark_is_after_rollback, Ev_mark_download_slot_as_invalid, Ev_jump_to_vtor]"
| "action_calls Swap_and_arm =
     [Ev_swap_images, Ev_mark_pico_has_new_firmware, Ev_mark_is_not_after_rollback,
      Ev_mark_should_rollback, Ev_mark_download_slot_as_invalid, Ev_jump_to_vtor]"
| "action_calls Passthrough =
     [Ev_firmware_commit, Ev_mark_pico_has_no_new_firmware,
      Ev_mark_download_slot_as_invalid, Ev_jump_to_vtor]"

fun performs :: "action \<Rightarrow> event list \<Rightarrow> bool" where
  "performs Recovery ev = (Ev_recovery_server \<in> set ev)"
| "performs a ev = suffix (action_calls a) ev"

text \<open>A network on which nothing arrives: every pass finds the receive buffer empty.\<close>

definition idle :: "(bool \<times> rx) list \<Rightarrow> bool" where
  "idle net = list_all (\<lambda>x. getSn_RX_RSR (snd x) = 0) net"








text \<open>A memory map and a flash content for the concrete instances below: two slots of two
  sectors each, the application slot filled with \<open>0xAA\<close> and everything else with
  \<open>0x55\<close>.\<close>

definition L0 :: layout where
  "L0 = \<lparr>FLASH_APP_START = 0x10000, FLASH_DOWNLOAD_SLOT_START = 0x20000,
         FLASH_SWAP_SPACE_LENGTH = 0x2000, FLASH_INFO_START = 0x1000\<rparr>"

definition fl0 :: flash where
  "fl0 = (\<lambda>x. if in_range 0x10000 0x2000 x then 0xAA else 0x55)"


text \<open>A device at reset for the concrete instances: no flag set, nothing buffered, no call
  made yet.\<close>

definition s0 :: sys where
  "s0 = \<lparr>flash = fl0, has_new_firmware = False, after_rollback = False,
          should_rollback = False, has_firmware_to_swap = False, swap_size = 0,
          upload_buffer = replicate 256 0, upload_pos = 0, trace = []\<rparr>"

text \<open>A POST request with a minimal header, carrying the given body in one burst; a checker
  that rejects every image and one that accepts every image.\<close>

definition post_header :: "byte list" where
  "post_header = bytes_of (''POST /upload HTTP/1.1'' @ CRLF @ CRLF)"

definition post_request :: "byte list \<Rightarrow> rx" where
  "post_request body = [post_header @ body]"

definition reject_all :: sha256_check where
  "reject_all fl n = 1"


text \<open>The same device with a rollback armed, and the requests of the instances: a POST with
  a body of 300 bytes \<open>0x41\<close>, one with 256 bytes \<open>0x41\<close> and one with 256 bytes
  \<open>0x42\<close>.\<close>

definition s_armed :: sys where
  "s_armed = s0\<lparr>should_rollback := True\<rparr>"

definition post_300 :: rx where
  "post_300 = post_request (replicate 300 0x41)"

definition post_256 :: rx where
  "post_256 = post_request (replicate 256 0x41)"


text \<open>Both pins high at reset (no button held), and a device on which the application has
  staged a firmware to swap.\<close>

definition pins_high :: gpio where
  "pins_high = \<lparr>pin0_at_reset = True, pin8_at_reset = True,
                 pin0_after_blink = True, pin8_after_blink = True\<rparr>"

definition pins_low :: gpio where
  "pins_low = \<lparr>pin0_at_reset = False, pin8_at_reset = True,
                pin0_after_blink = False, pin8_after_blink = True\<rparr>"

definition s_staged :: sys where
  "s_staged = s0\<lparr>has_firmware_to_swap := True\<rparr>"







section \<open>Properties of the image swap\<close>


lemma ff_and: "(0xFF :: byte) AND w = w"
proof -
  have "(0xFF :: byte) = - 1" by simp
  then show ?thesis by (simp only: and.left_neutral)
qed

lemma u32_id: "x < 2 ^ 32 \<Longrightarrow> u32 x = x"
  by (simp add: u32_def)

lemma memcpy_from_nth: "k < n \<Longrightarrow> memcpy_from fl a n ! k = fl (a + k)"
  by (simp add: memcpy_from_def)

lemma length_memcpy_from: "length (memcpy_from fl a n) = n"
  by (simp add: memcpy_from_def)

lemma in_range_disjoint:
  "a + n \<le> d \<or> d + n \<le> a \<Longrightarrow> in_range a n x \<Longrightarrow> \<not> in_range d n x"
  unfolding in_range_def by arith

lemma exchange_ranges:
  assumes dis: "a + n \<le> d \<or> d + n \<le> a"
  shows "flash_range_program
           (flash_range_program (flash_range_erase (flash_range_erase g a n) d n) a
              (memcpy_from g d n)) d (memcpy_from g a n) x =
         (if in_range a n x then g (d + (x - a))
          else if in_range d n x then g (a + (x - d)) else g x)"
proof -
  consider (inA) "in_range a n x" | (inD) "in_range d n x"
    | (out) "\<not> in_range a n x" "\<not> in_range d n x"
    by blast
  then show ?thesis
  proof cases
    case inA
    with dis have nd: "\<not> in_range d n x" by (rule in_range_disjoint)
    from inA have k: "x - a < n" unfolding in_range_def by arith
    show ?thesis using inA nd
      by (simp add: flash_range_program_def flash_range_erase_def length_memcpy_from
            memcpy_from_nth [OF k] ff_and)
  next
    case inD
    from dis have "d + n \<le> a \<or> a + n \<le> d" by blast
    from this inD have na: "\<not> in_range a n x" by (rule in_range_disjoint)
    from inD have k: "x - d < n" unfolding in_range_def by arith
    show ?thesis using inD na
      by (simp add: flash_range_program_def flash_range_erase_def length_memcpy_from
            memcpy_from_nth [OF k] ff_and)
  next
    case out
    then show ?thesis
      by (simp add: flash_range_program_def flash_range_erase_def length_memcpy_from)
  qed
qed

lemma swap_sector_pointwise:
  assumes ok: "layout_ok L" and le: "Suc i * FLASH_SECTOR_SIZE \<le> FLASH_SWAP_SPACE_LENGTH L"
  shows "swap_sector L i g x =
         (if in_range (FLASH_APP_START L + i * FLASH_SECTOR_SIZE) FLASH_SECTOR_SIZE x
          then g (FLASH_DOWNLOAD_SLOT_START L + i * FLASH_SECTOR_SIZE
                   + (x - (FLASH_APP_START L + i * FLASH_SECTOR_SIZE)))
          else if in_range (FLASH_DOWNLOAD_SLOT_START L + i * FLASH_SECTOR_SIZE) FLASH_SECTOR_SIZE x
          then g (FLASH_APP_START L + i * FLASH_SECTOR_SIZE
                   + (x - (FLASH_DOWNLOAD_SLOT_START L + i * FLASH_SECTOR_SIZE)))
          else g x)"
proof -
  define A where "A = FLASH_APP_START L"
  define D where "D = FLASH_DOWNLOAD_SLOT_START L"
  define S where "S = FLASH_SECTOR_SIZE"
  define N where "N = FLASH_SWAP_SPACE_LENGTH L"
  define m where "m = i * S"
  have le': "m + S \<le> N" using le by (simp add: m_def S_def N_def)
  have dis: "A + N \<le> D \<or> D + N \<le> A" and bA: "A + N \<le> 2 ^ 32" and bD: "D + N \<le> 2 ^ 32"
    using ok by (simp_all add: layout_ok_def A_def D_def N_def)
  have Spos: "0 < S" by (simp add: S_def FLASH_SECTOR_SIZE_def)
  have a: "u32 (A + m) = A + m"
    using bA le' Spos by (intro u32_id) arith
  have d: "u32 (D + m) = D + m"
    using bD le' Spos by (intro u32_id) arith
  have sd: "(A + m) + S \<le> D + m \<or> (D + m) + S \<le> A + m"
    using dis le' by arith
  show ?thesis
    unfolding swap_sector_def Let_def A_def [symmetric] D_def [symmetric] S_def [symmetric]
      m_def [symmetric] a d
    by (rule exchange_ranges [OF sd])
qed

lemma swap_sector_exchanged:
  assumes ok: "layout_ok L" and le: "Suc i * FLASH_SECTOR_SIZE \<le> FLASH_SWAP_SPACE_LENGTH L"
  shows "swap_sector L i (exchanged L i fl) = exchanged L (Suc i) fl"
proof
  fix x
  define A where "A = FLASH_APP_START L"
  define D where "D = FLASH_DOWNLOAD_SLOT_START L"
  define S where "S = FLASH_SECTOR_SIZE"
  define N where "N = FLASH_SWAP_SPACE_LENGTH L"
  define m where "m = i * S"
  have le': "m + S \<le> N" using le by (simp add: m_def S_def N_def)
  have dis: "A + N \<le> D \<or> D + N \<le> A"
    using ok by (simp_all add: layout_ok_def A_def D_def N_def)
  have step: "swap_sector L i g x =
         (if in_range (A + m) S x then g (D + m + (x - (A + m)))
          else if in_range (D + m) S x then g (A + m + (x - (D + m))) else g x)" for g
    unfolding A_def D_def S_def m_def by (rule swap_sector_pointwise [OF ok le])
  have ex: "exchanged L k fl y =
     (if in_range A (k * S) y then fl (D + (y - A))
      else if in_range D (k * S) y then fl (A + (y - D)) else fl y)" for k y
    by (simp add: exchanged_def A_def D_def S_def)
  have Sm: "Suc i * S = m + S" by (simp add: m_def)
  consider (inA) "in_range (A + m) S x" | (inD) "in_range (D + m) S x"
    | (out) "\<not> in_range (A + m) S x" "\<not> in_range (D + m) S x"
    by blast
  then show "swap_sector L i (exchanged L i fl) x = exchanged L (Suc i) fl x"
  proof cases
    case inA
    define y where "y = D + m + (x - (A + m))"
    have 1: "\<not> in_range A m y" using inA dis le' unfolding in_range_def y_def by arith
    have 2: "\<not> in_range D m y" using inA unfolding in_range_def y_def by arith
    have 3: "in_range A (m + S) x" using inA unfolding in_range_def by arith
    have 4: "y = D + (x - A)" using inA unfolding in_range_def y_def by arith
    have "swap_sector L i (exchanged L i fl) x = exchanged L i fl y"
      unfolding step y_def using inA by simp
    also have "\<dots> = fl y"
      unfolding ex m_def [symmetric] using 1 2 by simp
    also have "\<dots> = exchanged L (Suc i) fl x"
      unfolding ex Sm using 3 by (simp add: 4)
    finally show ?thesis .
  next
    case inD
    define y where "y = A + m + (x - (D + m))"
    have 0: "\<not> in_range (A + m) S x" using inD dis le' unfolding in_range_def by arith
    have 1: "\<not> in_range A m y" using inD unfolding in_range_def y_def by arith
    have 2: "\<not> in_range D m y" using inD dis le' unfolding in_range_def y_def by arith
    have 3: "\<not> in_range A (m + S) x" using inD dis le' unfolding in_range_def by arith
    have 5: "in_range D (m + S) x" using inD unfolding in_range_def by arith
    have 4: "y = A + (x - D)" using inD unfolding in_range_def y_def by arith
    have "swap_sector L i (exchanged L i fl) x = exchanged L i fl y"
      unfolding step y_def using inD 0 by simp
    also have "\<dots> = fl y"
      unfolding ex m_def [symmetric] using 1 2 by simp
    also have "\<dots> = exchanged L (Suc i) fl x"
      unfolding ex Sm using 3 5 by (simp add: 4)
    finally show ?thesis .
  next
    case out
    have 1: "in_range A (m + S) x = in_range A m x" using out unfolding in_range_def by arith
    have 2: "in_range D (m + S) x = in_range D m x" using out unfolding in_range_def by arith
    have "swap_sector L i (exchanged L i fl) x = exchanged L i fl x"
      unfolding step using out by simp
    also have "\<dots> = exchanged L (Suc i) fl x"
      unfolding ex Sm 1 2 m_def [symmetric] by simp
    finally show ?thesis .
  qed
qed

lemma swap_loop_exchanged:
  assumes ok: "layout_ok L" and le: "n * FLASH_SECTOR_SIZE \<le> FLASH_SWAP_SPACE_LENGTH L"
  shows "i \<le> n \<Longrightarrow> swap_loop L n i (exchanged L i fl) = exchanged L n fl"
proof (induction "n - i" arbitrary: i)
  case 0
  then have "i = n" by simp
  then show ?case by (simp add: swap_loop.simps)
next
  case (Suc k)
  then have lt: "i < n" and k: "k = n - Suc i" and le2: "Suc i \<le> n" by arith+
  have "Suc i * FLASH_SECTOR_SIZE \<le> n * FLASH_SECTOR_SIZE"
    using le2 by (rule mult_le_mono1)
  with le have b: "Suc i * FLASH_SECTOR_SIZE \<le> FLASH_SWAP_SPACE_LENGTH L" by simp
  have "swap_loop L n i (exchanged L i fl) = swap_loop L n (Suc i) (swap_sector L i (exchanged L i fl))"
    using lt by (subst swap_loop.simps) simp
  also have "\<dots> = swap_loop L n (Suc i) (exchanged L (Suc i) fl)"
    by (simp only: swap_sector_exchanged [OF ok b])
  also have "\<dots> = exchanged L n fl"
    using Suc.hyps(1) [OF k le2] .
  finally show ?case .
qed


lemma in_range_0: "\<not> in_range a 0 x"
  by (auto simp add: in_range_def)

lemma exchanged_0: "exchanged L 0 fl = fl"
  by (rule ext) (simp add: exchanged_def in_range_0)

lemma swap_loop_is_exchanged:
  assumes "layout_ok L" and "n * FLASH_SECTOR_SIZE \<le> FLASH_SWAP_SPACE_LENGTH L"
  shows "swap_loop L n 0 fl = exchanged L n fl"
  using swap_loop_exchanged [OF assms, of 0 fl] by (simp add: exchanged_0)

lemma SWAP_ITERATIONS_bound:
  "SWAP_ITERATIONS L sz * FLASH_SECTOR_SIZE \<le> FLASH_SWAP_SPACE_LENGTH L"
proof -
  have "clamp_swap_size L sz \<le> FLASH_SWAP_SPACE_LENGTH L"
    by (simp add: clamp_swap_size_def)
  moreover have "SWAP_ITERATIONS L sz * FLASH_SECTOR_SIZE \<le> clamp_swap_size L sz"
    by (simp add: SWAP_ITERATIONS_def)
  ultimately show ?thesis by (rule order_trans [rotated])
qed

lemma swap_images_is_exchanged:
  "layout_ok L \<Longrightarrow> swap_images L sz fl = exchanged L (SWAP_ITERATIONS L sz) fl"
  unfolding swap_images_def by (rule swap_loop_is_exchanged [OF _ SWAP_ITERATIONS_bound])

lemma exchanged_twice:
  assumes ok: "layout_ok L" and le: "n * FLASH_SECTOR_SIZE \<le> FLASH_SWAP_SPACE_LENGTH L"
  shows "exchanged L n (exchanged L n fl) = fl"
proof
  fix x
  define A where "A = FLASH_APP_START L"
  define D where "D = FLASH_DOWNLOAD_SLOT_START L"
  define m where "m = n * FLASH_SECTOR_SIZE"
  have dis: "A + m \<le> D \<or> D + m \<le> A"
    using ok le by (auto simp add: layout_ok_def A_def D_def m_def)
  have ex: "exchanged L n g y =
     (if in_range A m y then g (D + (y - A))
      else if in_range D m y then g (A + (y - D)) else g y)" for g y
    by (simp add: exchanged_def A_def D_def m_def)
  consider (inA) "in_range A m x" | (inD) "in_range D m x"
    | (out) "\<not> in_range A m x" "\<not> in_range D m x"
    by blast
  then show "exchanged L n (exchanged L n fl) x = fl x"
  proof cases
    case inA
    have 1: "\<not> in_range A m (D + (x - A))"
      using inA dis unfolding in_range_def by arith
    have 2: "in_range D m (D + (x - A))"
      using inA unfolding in_range_def by arith
    have 3: "A + (D + (x - A) - D) = x"
      using inA unfolding in_range_def by arith
    have "exchanged L n (exchanged L n fl) x = exchanged L n fl (D + (x - A))"
      by (subst ex) (simp add: inA)
    also have "\<dots> = fl (A + (D + (x - A) - D))"
      by (subst ex) (simp add: 1 2)
    finally show ?thesis by (simp only: 3)
  next
    case inD
    have 0: "\<not> in_range A m x"
      using inD dis unfolding in_range_def by arith
    have 1: "in_range A m (A + (x - D))"
      using inD unfolding in_range_def by arith
    have 3: "D + (A + (x - D) - A) = x"
      using inD unfolding in_range_def by arith
    have "exchanged L n (exchanged L n fl) x = exchanged L n fl (A + (x - D))"
      by (subst ex) (simp add: inD 0)
    also have "\<dots> = fl (D + (A + (x - D) - A))"
      by (subst ex) (simp add: 1)
    finally show ?thesis by (simp only: 3)
  next
    case out
    then show ?thesis by (simp add: ex)
  qed
qed

lemma exchanged_outside:
  "\<not> in_range (FLASH_APP_START L) (n * FLASH_SECTOR_SIZE) x \<Longrightarrow>
   \<not> in_range (FLASH_DOWNLOAD_SLOT_START L) (n * FLASH_SECTOR_SIZE) x \<Longrightarrow>
   exchanged L n fl x = fl x"
  by (simp add: exchanged_def)

lemma layout_ok_L0: "layout_ok L0"
  by (simp add: layout_ok_def L0_def FLASH_SECTOR_SIZE_def)



section \<open>Properties of the upload loop\<close>


lemma fill_buffer_spec:
  "fill_buffer data buf pos = (data1, buf1, pos1) \<Longrightarrow> pos \<le> PFB_ALIGN_SIZE \<Longrightarrow>
   PFB_ALIGN_SIZE \<le> length buf \<Longrightarrow> k = min (length data) (PFB_ALIGN_SIZE - pos) \<Longrightarrow>
   data1 = drop k data \<and> pos1 = pos + k \<and> length buf1 = length buf \<and>
   take pos1 buf1 = take pos buf @ take k data"
proof (induction data buf pos arbitrary: k rule: fill_buffer.induct)
  case (1 buf pos)
  then show ?case by simp
next
  case (2 b data buf pos)
  show ?case
  proof (cases "pos < PFB_ALIGN_SIZE")
    case True
    define k' where "k' = min (length data) (PFB_ALIGN_SIZE - Suc pos)"
    have k: "k = Suc k'" using True "2.prems"(4) unfolding k'_def by (simp add: min_def) arith
    have run: "fill_buffer data (buf[pos := b]) (Suc pos) = (data1, buf1, pos1)"
      using "2.prems"(1) True by simp
    have ih: "data1 = drop k' data \<and> pos1 = Suc pos + k' \<and> length buf1 = length (buf[pos := b]) \<and>
        take pos1 buf1 = take (Suc pos) (buf[pos := b]) @ take k' data"
      using True "2.prems"(3) by (intro "2.IH" [OF True run]) (simp_all add: k'_def)
    have lt: "pos < length buf" using True "2.prems"(3) by simp
    have "take (Suc pos) (buf[pos := b]) = take pos buf @ [b]"
      using lt by (simp add: take_Suc_conv_app_nth)
    with ih show ?thesis by (auto simp add: k)
  next
    case False
    with "2.prems" show ?thesis by simp
  qed
qed

lemma recv_stream:
  assumes "0 < getSn_RX_RSR r" and "recv (clamp_len (getSn_RX_RSR r)) r = (chunk, r')"
  shows "chunk \<noteq> [] \<and> stream chunk r' = concat (takeWhile (\<lambda>b. b \<noteq> []) r)"
proof (cases r)
  case Nil
  with assms(1) show ?thesis by (simp add: getSn_RX_RSR_def)
next
  case (Cons b rest)
  define n where "n = clamp_len (length b)"
  have b: "b \<noteq> []" using assms(1) Cons by (simp add: getSn_RX_RSR_def)
  then have n: "0 < n" by (cases b) (simp_all add: n_def clamp_len_def)
  have c: "chunk = take n b" and r': "r' = (if drop n b = [] then rest else drop n b # rest)"
    using assms(2) Cons by (auto simp add: recv_def getSn_RX_RSR_def n_def)
  have ne: "chunk \<noteq> []" using b n c by (cases b) auto
  have "chunk @ concat (takeWhile (\<lambda>b. b \<noteq> []) r') = b @ concat (takeWhile (\<lambda>b. b \<noteq> []) rest)"
  proof (cases "drop n b = []")
    case True
    then have "take n b = b" by simp
    with True show ?thesis by (simp add: c r')
  next
    case False
    then show ?thesis by (simp add: c r')
  qed
  with ne b show ?thesis by (simp add: stream_def Cons)
qed

lemma no_rx_stream:
  "getSn_RX_RSR r = 0 \<Longrightarrow> concat (takeWhile (\<lambda>b. b \<noteq> []) r) = []"
  by (cases r) (simp_all add: getSn_RX_RSR_def)


lemma metadata_upd [simp]:
  "metadata (s\<lparr>upload_buffer := b\<rparr>) = metadata s"
  "metadata (s\<lparr>upload_pos := p\<rparr>) = metadata s"
  "metadata (s\<lparr>flash := f\<rparr>) = metadata s"
  "metadata (s\<lparr>trace := t\<rparr>) = metadata s"
  by (simp_all add: metadata_def)

lemma metadata_log [simp]: "metadata (log e s) = metadata s"
  by (simp add: log_def)

lemma upload_step_spec:
  assumes ne: "data \<noteq> []" and pos: "upload_pos s < PFB_ALIGN_SIZE"
    and len: "length (upload_buffer s) = PFB_ALIGN_SIZE"
    and step: "upload_step L data r upload_done s = (data', r', upload_done', s')"
  shows "upload_pos s' < PFB_ALIGN_SIZE \<and> length (upload_buffer s') = PFB_ALIGN_SIZE \<and>
         metadata s' = metadata s \<and>
         (if PFB_ALIGN_SIZE \<le> upload_pos s + length data
          then PFB_ALIGN_SIZE \<le> length (pending s data r) \<and>
               upload_done' = upload_done + PFB_ALIGN_SIZE \<and>
               pending s' data' r' = drop PFB_ALIGN_SIZE (pending s data r) \<and>
               flash s' = flash_range_program (flash s) (FLASH_DOWNLOAD_SLOT_START L + upload_done)
                            (take PFB_ALIGN_SIZE (pending s data r)) \<and>
               (\<exists>ev. trace s' = trace s @
                   Ev_write_to_flash_aligned_256_bytes (take PFB_ALIGN_SIZE (pending s data r))
                     upload_done PFB_ALIGN_SIZE # ev \<and> (\<forall>e\<in>set ev. is_recv e))
          else upload_done' = upload_done \<and> pending s' data' r' = pending s data r \<and>
               flash s' = flash s \<and>
               (\<exists>ev. trace s' = trace s @ ev \<and> (\<forall>e\<in>set ev. is_recv e)))"
proof -
  define k where "k = min (length data) (PFB_ALIGN_SIZE - upload_pos s)"
  obtain data1 buf1 pos1 where fb: "fill_buffer data (upload_buffer s) (upload_pos s) = (data1, buf1, pos1)"
    by (cases "fill_buffer data (upload_buffer s) (upload_pos s)") auto
  have le1: "upload_pos s \<le> PFB_ALIGN_SIZE" using pos by simp
  have le2: "PFB_ALIGN_SIZE \<le> length (upload_buffer s)" using len by simp
  note spec0 = fill_buffer_spec [OF fb le1 le2 k_def]
  from spec0 have sp1: "data1 = drop k data" and sp2: "pos1 = upload_pos s + k"
    and sp3: "length buf1 = length (upload_buffer s)"
    and sp4: "take pos1 buf1 = take (upload_pos s) (upload_buffer s) @ take k data"
    by blast+
  note spec = sp1 sp2 sp3 [unfolded len] sp4
  have kpos: "0 < k" using ne pos by (cases data) (simp_all add: k_def)
  have kle: "k \<le> length data" by (simp add: k_def)
  define rest where "rest = concat (takeWhile (\<lambda>b. b \<noteq> []) r)"
  have st: "stream data r = data @ rest" using ne by (simp add: stream_def rest_def)
  have P: "pending s data r = take (upload_pos s) (upload_buffer s) @ data @ rest"
    by (simp add: pending_def st)
  have lenP: "length (pending s data r) = upload_pos s + length data + length rest"
    using pos len by (simp add: P)
  \<comment> \<open>the socket poll\<close>
  define s1 where "s1 = s\<lparr>upload_buffer := buf1, upload_pos := pos1\<rparr>"
  define s2 where "s2 = (if pos1 = PFB_ALIGN_SIZE
      then (pfb_write_to_flash_aligned_256_bytes L buf1 upload_done pos1 s1)\<lparr>upload_pos := 0\<rparr>
      else s1)"
  define d2 where "d2 = (if pos1 = PFB_ALIGN_SIZE then upload_done + pos1 else upload_done)"
  have step': "(data', r', upload_done', s') =
     (if data1 = []
           then (let len = getSn_RX_RSR r
                 in if len > 0
                    then (case recv (clamp_len len) r of (chunk, r') \<Rightarrow>
                            (chunk, r', d2, log (Ev_recv (clamp_len len)) s2))
                    else ([], r, d2, s2))
           else (data1, r, d2, s2))"
    using step unfolding upload_step_def fb s1_def s2_def d2_def
    by (simp add: Let_def split: if_splits)
  have poll: "upload_done' = d2 \<and> stream data' r' = drop k (data @ rest) \<and>
      upload_buffer s' = upload_buffer s2 \<and> upload_pos s' = upload_pos s2 \<and>
      flash s' = flash s2 \<and> metadata s' = metadata s2 \<and>
      (data' = [] \<or> k < length data \<or> 0 < length rest) \<and>
      (\<exists>ev. trace s' = trace s2 @ ev \<and> (\<forall>e\<in>set ev. is_recv e))"
  proof (cases "data1 = []")
    case False
    then have "data' = data1" "r' = r" "upload_done' = d2" "s' = s2" using step' by simp_all
    moreover have "k < length data" using False spec(1) by simp
    ultimately show ?thesis using False spec(1) kle by (simp add: stream_def rest_def)
  next
    case True
    then have kd: "k = length data" using spec(1) kle by simp
    show ?thesis
    proof (cases "0 < getSn_RX_RSR r")
      case False
      then have "data' = []" "r' = r" "upload_done' = d2" "s' = s2" using step' True by simp_all
      moreover have "rest = []" using False no_rx_stream [of r] by (simp add: rest_def)
      ultimately show ?thesis by (simp add: stream_def kd)
    next
      case pos: True
      obtain chunk rr where rc: "recv (clamp_len (getSn_RX_RSR r)) r = (chunk, rr)"
        by (cases "recv (clamp_len (getSn_RX_RSR r)) r") auto
      have eq: "data' = chunk" "r' = rr" "upload_done' = d2"
        "s' = log (Ev_recv (clamp_len (getSn_RX_RSR r))) s2"
        using step' True pos rc by (simp_all add: Let_def)
      from recv_stream [OF pos rc] have c: "chunk \<noteq> []" and sc: "stream chunk rr = rest"
        by (simp_all add: rest_def)
      have "0 < length rest" using c sc by (auto simp add: stream_def)
      then show ?thesis using eq sc kd by (simp add: log_def)
    qed
  qed
  from poll have p_done: "upload_done' = d2" and p_stream: "stream data' r' = drop k (data @ rest)"
    and p_buf: "upload_buffer s' = upload_buffer s2" and p_pos: "upload_pos s' = upload_pos s2"
    and p_flash: "flash s' = flash s2" and p_meta: "metadata s' = metadata s2"
    and p_trace: "\<exists>ev. trace s' = trace s2 @ ev \<and> (\<forall>e\<in>set ev. is_recv e)"
    by blast+
  show ?thesis
  proof (cases "pos1 = PFB_ALIGN_SIZE")
    case True
    then have full: "upload_pos s + k = PFB_ALIGN_SIZE" using spec(2) by simp
    then have keq: "PFB_ALIGN_SIZE - upload_pos s = k" by simp
    have ge0: "PFB_ALIGN_SIZE \<le> upload_pos s + length data" using full kle by simp
    then have ge: "PFB_ALIGN_SIZE \<le> length (pending s data r)" using lenP by simp
    have blk: "take PFB_ALIGN_SIZE (pending s data r) = buf1"
    proof -
      have "take PFB_ALIGN_SIZE (pending s data r) = take (upload_pos s) (upload_buffer s) @ take k data"
        using pos len kle by (simp add: P keq)
      also have "\<dots> = take pos1 buf1" by (simp add: spec(4))
      also have "\<dots> = buf1" using True spec(3) by simp
      finally show ?thesis .
    qed
    have drp: "drop PFB_ALIGN_SIZE (pending s data r) = drop k (data @ rest)"
      using pos len kle by (simp add: P keq)
    have s2: "upload_pos s2 = 0" "upload_buffer s2 = buf1" "metadata s2 = metadata s"
      "flash s2 = flash_range_program (flash s) (FLASH_DOWNLOAD_SLOT_START L + upload_done) buf1"
      "trace s2 = trace s @ [Ev_write_to_flash_aligned_256_bytes buf1 upload_done PFB_ALIGN_SIZE]"
      using True spec(3)
      by (simp_all add: s2_def s1_def pfb_write_to_flash_aligned_256_bytes_def log_def)
    have d2: "d2 = upload_done + PFB_ALIGN_SIZE" using True by (simp add: d2_def)
    have "pending s' data' r' = stream data' r'"
      using p_pos s2(1) by (simp add: pending_def)
    then have pen: "pending s' data' r' = drop PFB_ALIGN_SIZE (pending s data r)"
      by (simp only: p_stream drp)
    from p_trace obtain ev where ev: "trace s' = trace s2 @ ev" "\<forall>e\<in>set ev. is_recv e" by blast
    have "trace s' = trace s @
        Ev_write_to_flash_aligned_256_bytes (take PFB_ALIGN_SIZE (pending s data r))
          upload_done PFB_ALIGN_SIZE # ev"
      using ev(1) s2(5) by (simp add: blk)
    with ev(2) have tr: "\<exists>ev. trace s' = trace s @
        Ev_write_to_flash_aligned_256_bytes (take PFB_ALIGN_SIZE (pending s data r))
          upload_done PFB_ALIGN_SIZE # ev \<and> (\<forall>e\<in>set ev. is_recv e)" by blast
    have "upload_pos s' < PFB_ALIGN_SIZE" using p_pos s2(1) by (simp add: PFB_ALIGN_SIZE_def)
    moreover have "length (upload_buffer s') = PFB_ALIGN_SIZE" using p_buf s2(2) spec(3) by simp
    moreover have "metadata s' = metadata s" using p_meta s2(3) by simp
    moreover have "upload_done' = upload_done + PFB_ALIGN_SIZE" using p_done d2 by simp
    moreover have "flash s' = flash_range_program (flash s) (FLASH_DOWNLOAD_SLOT_START L + upload_done)
                            (take PFB_ALIGN_SIZE (pending s data r))"
      using p_flash s2(4) by (simp add: blk)
    ultimately show ?thesis using ge0 ge pen tr by (simp only: if_True simp_thms)
  next
    case False
    have lt1: "pos1 < PFB_ALIGN_SIZE"
      using False spec(2) pos by (simp add: k_def min_def split: if_splits)
    then have kd: "k = length data" using spec(2) by (simp add: k_def min_def split: if_splits)
    have lt0: "\<not> PFB_ALIGN_SIZE \<le> upload_pos s + length data" using lt1 spec(2) kd by simp
    have s2: "s2 = s1" "d2 = upload_done" using False by (simp_all add: s2_def d2_def)
    have s1: "upload_pos s1 = pos1" "upload_buffer s1 = buf1" "metadata s1 = metadata s"
      "flash s1 = flash s" "trace s1 = trace s"
      by (simp_all add: s1_def)
    have "take (upload_pos s') (upload_buffer s') = take pos1 buf1"
      using p_pos p_buf s2 s1 by simp
    also have "\<dots> = take (upload_pos s) (upload_buffer s) @ data"
      by (simp add: spec(4) kd)
    finally have tk: "take (upload_pos s') (upload_buffer s') = take (upload_pos s) (upload_buffer s) @ data" .
    have "stream data' r' = rest" by (simp add: p_stream kd)
    with tk have pen: "pending s' data' r' = pending s data r"
      by (simp add: pending_def [of s'] P)
    have "upload_pos s' < PFB_ALIGN_SIZE" using p_pos s2 s1 lt1 by simp
    moreover have "length (upload_buffer s') = PFB_ALIGN_SIZE" using p_buf s2 s1 spec(3) by simp
    moreover have "metadata s' = metadata s" using p_meta s2 s1 by simp
    moreover have "upload_done' = upload_done" using p_done s2 by simp
    moreover have "flash s' = flash s" using p_flash s2 s1 by simp
    moreover have "\<exists>ev. trace s' = trace s @ ev \<and> (\<forall>e\<in>set ev. is_recv e)"
      using p_trace s2 s1 by simp
    ultimately show ?thesis using lt0 pen by (simp only: if_False simp_thms)
  qed
qed



lemma flash_range_program_Nil: "flash_range_program fl a [] = fl"
  by (rule ext) (simp add: flash_range_program_def in_range_0)

lemma flash_range_program_append:
  "flash_range_program (flash_range_program fl a xs) (a + length xs) ys =
   flash_range_program fl a (xs @ ys)"
proof
  fix x
  consider (lo) "in_range a (length xs) x" | (hi) "in_range (a + length xs) (length ys) x"
    | (out) "\<not> in_range a (length xs) x" "\<not> in_range (a + length xs) (length ys) x"
    by blast
  then show "flash_range_program (flash_range_program fl a xs) (a + length xs) ys x =
        flash_range_program fl a (xs @ ys) x"
  proof cases
    case lo
    then have 1: "\<not> in_range (a + length xs) (length ys) x"
      and 2: "in_range a (length xs + length ys) x" and 3: "x - a < length xs"
      unfolding in_range_def by arith+
    show ?thesis using lo 1 2 3 by (simp add: flash_range_program_def nth_append)
  next
    case hi
    then have 1: "\<not> in_range a (length xs) x"
      and 2: "in_range a (length xs + length ys) x" and 3: "\<not> x - a < length xs"
      unfolding in_range_def by arith+
    show ?thesis using hi 1 2 3 by (simp add: flash_range_program_def nth_append)
  next
    case out
    then have 2: "\<not> in_range a (length xs + length ys) x"
      unfolding in_range_def by arith
    show ?thesis using out 2 by (simp add: flash_range_program_def)
  qed
qed

lemma block_writes_short: "length bs < PFB_ALIGN_SIZE \<Longrightarrow> block_writes off bs = []"
  by (subst block_writes.simps) simp

lemma block_writes_long:
  "PFB_ALIGN_SIZE \<le> length bs \<Longrightarrow>
   block_writes off bs =
     Ev_write_to_flash_aligned_256_bytes (take PFB_ALIGN_SIZE bs) off PFB_ALIGN_SIZE
       # block_writes (off + PFB_ALIGN_SIZE) (drop PFB_ALIGN_SIZE bs)"
  by (subst block_writes.simps) simp

lemma filter_recv_only: "\<forall>e\<in>set ev. is_recv e \<Longrightarrow> filter is_write ev = []"
proof (induction ev)
  case Nil
  then show ?case by simp
next
  case (Cons e ev)
  then show ?case by (cases e) simp_all
qed

lemma upload_loop_spec:
  "upload_pos s < PFB_ALIGN_SIZE \<Longrightarrow> length (upload_buffer s) = PFB_ALIGN_SIZE \<Longrightarrow>
   \<exists>r' s'. upload_loop L data r upload_done s =
       Some (upload_done + PFB_ALIGN_SIZE * (length (pending s data r) div PFB_ALIGN_SIZE), r', s') \<and>
     upload_pos s' = length (pending s data r) mod PFB_ALIGN_SIZE \<and>
     length (upload_buffer s') = PFB_ALIGN_SIZE \<and>
     take (upload_pos s') (upload_buffer s') =
       drop (PFB_ALIGN_SIZE * (length (pending s data r) div PFB_ALIGN_SIZE)) (pending s data r) \<and>
     flash s' = flash_range_program (flash s) (FLASH_DOWNLOAD_SLOT_START L + upload_done)
       (take (PFB_ALIGN_SIZE * (length (pending s data r) div PFB_ALIGN_SIZE)) (pending s data r)) \<and>
     metadata s' = metadata s \<and>
     (\<exists>ev. trace s' = trace s @ ev \<and> filter is_write ev = block_writes upload_done (pending s data r) \<and>
           (\<forall>e\<in>set ev. is_write e \<or> is_recv e))"
proof (induction L data r upload_done s rule: upload_loop.induct)
  case (1 L data r upload_done s)
  define P where "P = pending s data r"
  define A where "A = PFB_ALIGN_SIZE"
  have Apos: "0 < A" by (simp add: A_def PFB_ALIGN_SIZE_def)
  show ?case
  proof (cases "data = []")
    case True
    have P: "P = take (upload_pos s) (upload_buffer s)" using True by (simp add: P_def pending_def stream_def)
    have lenP: "length P = upload_pos s" using "1.prems" by (simp add: P)
    have q: "length P div A = 0" "length P mod A = upload_pos s"
      using "1.prems"(1) lenP by (simp_all add: A_def)
    have run: "upload_loop L data r upload_done s = Some (upload_done, r, s)"
      using True by (subst upload_loop.simps) simp
    have bw: "block_writes upload_done P = []"
      using "1.prems"(1) lenP by (intro block_writes_short) simp
    have tr: "\<exists>ev. trace s = trace s @ ev \<and> filter is_write ev = block_writes upload_done P \<and>
           (\<forall>e\<in>set ev. is_write e \<or> is_recv e)"
      by (rule exI [of _ "[]"]) (simp add: bw)
    have "upload_loop L data r upload_done s = Some (upload_done + A * (length P div A), r, s)"
      using run by (simp add: q)
    moreover have "upload_pos s = length P mod A" by (simp add: q)
    moreover have "length (upload_buffer s) = A" using "1.prems"(2) by (simp add: A_def)
    moreover have "take (upload_pos s) (upload_buffer s) = drop (A * (length P div A)) P"
      unfolding q by (simp add: P)
    moreover have "flash s = flash_range_program (flash s) (FLASH_DOWNLOAD_SLOT_START L + upload_done)
       (take (A * (length P div A)) P)"
      by (simp add: q flash_range_program_Nil)
    moreover have "metadata s = metadata s" ..
    ultimately show ?thesis
      unfolding P_def [symmetric] A_def [symmetric]
      using tr by (intro exI [of _ r] exI [of _ s] conjI)
  next
    case False
    have npos: "\<not> PFB_ALIGN_SIZE < upload_pos s" using "1.prems"(1) by simp
    obtain data' r1 done' s1 where step: "upload_step L data r upload_done s = (data', r1, done', s1)"
      by (cases "upload_step L data r upload_done s") auto
    note sp = upload_step_spec [OF False "1.prems" step]
    note pos1 = sp [THEN conjunct1] and len1 = sp [THEN conjunct2, THEN conjunct1]
      and meta1 = sp [THEN conjunct2, THEN conjunct2, THEN conjunct1]
      and rest = sp [THEN conjunct2, THEN conjunct2, THEN conjunct2]
    define P1 where "P1 = pending s1 data' r1"
    have run: "upload_loop L data r upload_done s = upload_loop L data' r1 done' s1"
      using False npos step by (subst upload_loop.simps) simp
    note IH = "1.IH" [OF False npos step [symmetric] refl refl pos1 len1,
        unfolded P1_def [symmetric] A_def [symmetric]]
    from IH obtain r' where "\<exists>s'.
      upload_loop L data' r1 done' s1 = Some (done' + A * (length P1 div A), r', s') \<and>
      upload_pos s' = length P1 mod A \<and>
      length (upload_buffer s') = A \<and>
      take (upload_pos s') (upload_buffer s') = drop (A * (length P1 div A)) P1 \<and>
      flash s' = flash_range_program (flash s1) (FLASH_DOWNLOAD_SLOT_START L + done')
          (take (A * (length P1 div A)) P1) \<and>
      metadata s' = metadata s1 \<and>
      (\<exists>ev. trace s' = trace s1 @ ev \<and> filter is_write ev = block_writes done' P1 \<and>
           (\<forall>e\<in>set ev. is_write e \<or> is_recv e))" ..
    then obtain s' where ih0:
      "upload_loop L data' r1 done' s1 = Some (done' + A * (length P1 div A), r', s') \<and>
      upload_pos s' = length P1 mod A \<and>
      length (upload_buffer s') = A \<and>
      take (upload_pos s') (upload_buffer s') = drop (A * (length P1 div A)) P1 \<and>
      flash s' = flash_range_program (flash s1) (FLASH_DOWNLOAD_SLOT_START L + done')
          (take (A * (length P1 div A)) P1) \<and>
      metadata s' = metadata s1 \<and>
      (\<exists>ev. trace s' = trace s1 @ ev \<and> filter is_write ev = block_writes done' P1 \<and>
           (\<forall>e\<in>set ev. is_write e \<or> is_recv e))" ..
    note ih = ih0 [THEN conjunct1] ih0 [THEN conjunct2, THEN conjunct1]
      ih0 [THEN conjunct2, THEN conjunct2, THEN conjunct1]
      ih0 [THEN conjunct2, THEN conjunct2, THEN conjunct2, THEN conjunct1]
      ih0 [THEN conjunct2, THEN conjunct2, THEN conjunct2, THEN conjunct2, THEN conjunct1]
      ih0 [THEN conjunct2, THEN conjunct2, THEN conjunct2, THEN conjunct2, THEN conjunct2, THEN conjunct1]
    note ihtr = ih0 [THEN conjunct2, THEN conjunct2, THEN conjunct2, THEN conjunct2, THEN conjunct2, THEN conjunct2]
    from ihtr obtain ev1 where ev1: "trace s' = trace s1 @ ev1"
      "filter is_write ev1 = block_writes done' P1" "\<forall>e\<in>set ev1. is_write e \<or> is_recv e"
      by blast
    show ?thesis
    proof (cases "PFB_ALIGN_SIZE \<le> upload_pos s + length data")
      case True
      note w = rest [unfolded if_P [OF True]]
      have ge: "A \<le> length P" and d: "done' = upload_done + A" and P1: "P1 = drop A P"
        and fl1: "flash s1 = flash_range_program (flash s) (FLASH_DOWNLOAD_SLOT_START L + upload_done) (take A P)"
        and tr1: "\<exists>ev. trace s1 = trace s @
                   Ev_write_to_flash_aligned_256_bytes (take A P) upload_done A # ev \<and>
                   (\<forall>e\<in>set ev. is_recv e)"
        unfolding P_def P1_def A_def
        using w [THEN conjunct1] w [THEN conjunct2, THEN conjunct1]
          w [THEN conjunct2, THEN conjunct2, THEN conjunct1]
          w [THEN conjunct2, THEN conjunct2, THEN conjunct2, THEN conjunct1]
          w [THEN conjunct2, THEN conjunct2, THEN conjunct2, THEN conjunct2]
        by - assumption+
      from tr1 obtain ev0 where ev0: "trace s1 = trace s @
                   Ev_write_to_flash_aligned_256_bytes (take A P) upload_done A # ev0"
         "\<forall>e\<in>set ev0. is_recv e" by blast
      have len1: "length P1 = length P - A" by (simp add: P1)
      have q: "length P div A = Suc (length P1 div A)"
        using ge Apos by (simp add: len1 le_div_geq)
      have m: "length P mod A = length P1 mod A"
        using ge by (simp add: len1 le_mod_geq)
      have mul: "A * Suc (length P1 div A) = A + A * (length P1 div A)" by simp
      have a: "done' + A * (length P1 div A) = upload_done + A * (length P div A)"
        by (simp add: d q)
      have b: "drop (A * (length P1 div A)) P1 = drop (A * (length P div A)) P"
        by (simp add: P1 q add.commute)
      have lt: "length (take A P) = A" using ge by simp
      have c: "flash s' = flash_range_program (flash s) (FLASH_DOWNLOAD_SLOT_START L + upload_done)
          (take (A * (length P div A)) P)"
      proof -
        have "flash s' = flash_range_program
            (flash_range_program (flash s) (FLASH_DOWNLOAD_SLOT_START L + upload_done) (take A P))
            (FLASH_DOWNLOAD_SLOT_START L + upload_done + length (take A P))
            (take (A * (length P1 div A)) (drop A P))"
          by (simp only: ih(5) fl1 d lt P1 add.assoc)
        also have "\<dots> = flash_range_program (flash s) (FLASH_DOWNLOAD_SLOT_START L + upload_done)
            (take A P @ take (A * (length P1 div A)) (drop A P))"
          by (rule flash_range_program_append)
        also have "take A P @ take (A * (length P1 div A)) (drop A P) = take (A * (length P div A)) P"
          unfolding q mul by (simp only: take_add)
        finally show ?thesis .
      qed
      have bw: "block_writes upload_done P =
          Ev_write_to_flash_aligned_256_bytes (take A P) upload_done A # block_writes done' P1"
        using ge unfolding A_def P1 d by (rule block_writes_long)
      have tr: "trace s' = trace s @ (Ev_write_to_flash_aligned_256_bytes (take A P) upload_done A # ev0 @ ev1)"
        by (simp add: ev1(1) ev0(1))
      have f: "filter is_write (Ev_write_to_flash_aligned_256_bytes (take A P) upload_done A # ev0 @ ev1) =
          block_writes upload_done P"
        by (simp add: bw ev1(2) filter_recv_only [OF ev0(2)])
      have g: "\<forall>e\<in>set (Ev_write_to_flash_aligned_256_bytes (take A P) upload_done A # ev0 @ ev1).
          is_write e \<or> is_recv e"
        using ev0(2) ev1(3) by auto
      from tr f g have trx: "\<exists>ev. trace s' = trace s @ ev \<and> filter is_write ev = block_writes upload_done P \<and>
           (\<forall>e\<in>set ev. is_write e \<or> is_recv e)" by blast
      have "upload_loop L data r upload_done s = Some (upload_done + A * (length P div A), r', s')"
        by (simp only: run ih(1) a)
      moreover have "upload_pos s' = length P mod A" by (simp only: ih(2) m)
      moreover have "take (upload_pos s') (upload_buffer s') = drop (A * (length P div A)) P"
        by (simp only: ih(4) b)
      moreover have "metadata s' = metadata s" by (simp only: ih(6) meta1)
      ultimately show ?thesis
        unfolding P_def [symmetric] A_def [symmetric]
        using ih(3) c trx by (intro exI [of _ r'] exI [of _ s'] conjI)
    next
      case False
      note w = rest [unfolded if_not_P [OF False]]
      have d: "done' = upload_done" and P1: "P1 = P"
        and fl1: "flash s1 = flash s"
        and tr1: "\<exists>ev. trace s1 = trace s @ ev \<and> (\<forall>e\<in>set ev. is_recv e)"
        unfolding P_def P1_def A_def
        using w [THEN conjunct1] w [THEN conjunct2, THEN conjunct1]
          w [THEN conjunct2, THEN conjunct2, THEN conjunct1]
          w [THEN conjunct2, THEN conjunct2, THEN conjunct2]
        by - assumption+
      from tr1 obtain ev0 where ev0: "trace s1 = trace s @ ev0" "\<forall>e\<in>set ev0. is_recv e" by blast
      have tr: "trace s' = trace s @ (ev0 @ ev1)" by (simp add: ev1(1) ev0(1))
      have f: "filter is_write (ev0 @ ev1) = block_writes upload_done P"
        by (simp add: ev1(2) filter_recv_only [OF ev0(2)] d P1)
      have g: "\<forall>e\<in>set (ev0 @ ev1). is_write e \<or> is_recv e"
        using ev0(2) ev1(3) by auto
      from tr f g have trx: "\<exists>ev. trace s' = trace s @ ev \<and> filter is_write ev = block_writes upload_done P \<and>
           (\<forall>e\<in>set ev. is_write e \<or> is_recv e)" by blast
      have "upload_loop L data r upload_done s = Some (upload_done + A * (length P div A), r', s')"
        using run ih(1) by (simp only: d P1)
      moreover have "flash s' = flash_range_program (flash s) (FLASH_DOWNLOAD_SLOT_START L + upload_done)
          (take (A * (length P div A)) P)"
        using ih(5) by (simp only: d P1 fl1)
      moreover have "metadata s' = metadata s" by (simp only: ih(6) meta1)
      ultimately show ?thesis
        unfolding P_def [symmetric] A_def [symmetric]
        using ih(2,3,4) trx unfolding P1 by (intro exI [of _ r'] exI [of _ s'] conjI)
    qed
  qed
qed


section \<open>Properties of a pass of the server loop\<close>


lemma trace_log [simp]: "trace (log e s) = trace s @ [e]"
  by (simp add: log_def)

lemma flash_log [simp]: "flash (log e s) = flash s"
  by (simp add: log_def)

lemma upload_pos_log [simp]: "upload_pos (log e s) = upload_pos s"
  by (simp add: log_def)

lemma upload_buffer_log [simp]: "upload_buffer (log e s) = upload_buffer s"
  by (simp add: log_def)


lemma buffer_ok_log [simp]: "buffer_ok (log e s) = buffer_ok s"
  by (simp add: buffer_ok_def)

text \<open>post_body in closed form\<close>

lemma post_body_spec:
  fixes L :: layout and buf :: "byte list" and r1 :: rx and s :: sys and p :: nat
  assumes ok: "buffer_ok s" and t: "strstr buf (CRLF @ CRLF) = Some p"
  defines "B \<equiv> pending s (drop (p + 4) buf) r1"
  defines "n \<equiv> PFB_ALIGN_SIZE * (length B div PFB_ALIGN_SIZE)"
  shows "\<exists>s'. post_body L buf r1 s = Inr (n, s') \<and>
     upload_pos s' = length B mod PFB_ALIGN_SIZE \<and>
     length (upload_buffer s') = PFB_ALIGN_SIZE \<and>
     take (upload_pos s') (upload_buffer s') = drop n B \<and>
     flash s' = flash_range_program
        (flash_range_erase (flash s) (FLASH_DOWNLOAD_SLOT_START L) (FLASH_SWAP_SPACE_LENGTH L))
        (FLASH_DOWNLOAD_SLOT_START L) (take n B) \<and>
     metadata s' = metadata s \<and>
     (\<exists>ev. trace s' = trace s @ Ev_initialize_download_slot # ev \<and>
           filter is_write ev = block_writes 0 B \<and> upload_events ev)"
proof -
  define s1 where "s1 = pfb_initialize_download_slot L s"
  have s1: "upload_pos s1 = upload_pos s" "upload_buffer s1 = upload_buffer s"
    "metadata s1 = metadata s" "trace s1 = trace s @ [Ev_initialize_download_slot]"
    "flash s1 = flash_range_erase (flash s) (FLASH_DOWNLOAD_SLOT_START L) (FLASH_SWAP_SPACE_LENGTH L)"
    by (simp_all add: s1_def pfb_initialize_download_slot_def)
  have pos: "upload_pos s1 < PFB_ALIGN_SIZE" and len: "length (upload_buffer s1) = PFB_ALIGN_SIZE"
    using ok by (simp_all add: buffer_ok_def s1)
  have B: "pending s1 (drop (p + 4) buf) r1 = B"
    by (simp add: B_def pending_def s1)
  note sp = upload_loop_spec [OF pos len, of L "drop (p + 4) buf" r1 0, unfolded B n_def [symmetric]]
  from sp obtain r' where "\<exists>s'. upload_loop L (drop (p + 4) buf) r1 0 s1 = Some (0 + n, r', s') \<and>
     upload_pos s' = length B mod PFB_ALIGN_SIZE \<and>
     length (upload_buffer s') = PFB_ALIGN_SIZE \<and>
     take (upload_pos s') (upload_buffer s') = drop n B \<and>
     flash s' = flash_range_program (flash s1) (FLASH_DOWNLOAD_SLOT_START L + 0) (take n B) \<and>
     metadata s' = metadata s1 \<and>
     (\<exists>ev. trace s' = trace s1 @ ev \<and> filter is_write ev = block_writes 0 B \<and>
           (\<forall>e\<in>set ev. is_write e \<or> is_recv e))" ..
  then obtain s' where r: "upload_loop L (drop (p + 4) buf) r1 0 s1 = Some (0 + n, r', s') \<and>
     upload_pos s' = length B mod PFB_ALIGN_SIZE \<and>
     length (upload_buffer s') = PFB_ALIGN_SIZE \<and>
     take (upload_pos s') (upload_buffer s') = drop n B \<and>
     flash s' = flash_range_program (flash s1) (FLASH_DOWNLOAD_SLOT_START L + 0) (take n B) \<and>
     metadata s' = metadata s1 \<and>
     (\<exists>ev. trace s' = trace s1 @ ev \<and> filter is_write ev = block_writes 0 B \<and>
           (\<forall>e\<in>set ev. is_write e \<or> is_recv e))" ..
  note r1 = r [THEN conjunct1] and r2 = r [THEN conjunct2, THEN conjunct1]
    and r3 = r [THEN conjunct2, THEN conjunct2, THEN conjunct1]
    and r4 = r [THEN conjunct2, THEN conjunct2, THEN conjunct2, THEN conjunct1]
    and r5 = r [THEN conjunct2, THEN conjunct2, THEN conjunct2, THEN conjunct2, THEN conjunct1]
    and r6 = r [THEN conjunct2, THEN conjunct2, THEN conjunct2, THEN conjunct2, THEN conjunct2, THEN conjunct1]
    and r7 = r [THEN conjunct2, THEN conjunct2, THEN conjunct2, THEN conjunct2, THEN conjunct2, THEN conjunct2]
  from r7 obtain ev where ev: "trace s' = trace s1 @ ev" "filter is_write ev = block_writes 0 B"
    "\<forall>e\<in>set ev. is_write e \<or> is_recv e" by blast
  have run: "post_body L buf r1 s = Inr (n, s')"
    using r1 by (simp add: post_body_def t s1_def)
  have fl: "flash s' = flash_range_program
        (flash_range_erase (flash s) (FLASH_DOWNLOAD_SLOT_START L) (FLASH_SWAP_SPACE_LENGTH L))
        (FLASH_DOWNLOAD_SLOT_START L) (take n B)"
    using r5 by (simp add: s1)
  have meta: "metadata s' = metadata s" using r6 by (simp add: s1)
  have tr: "\<exists>ev. trace s' = trace s @ Ev_initialize_download_slot # ev \<and>
           filter is_write ev = block_writes 0 B \<and> upload_events ev"
    using ev by (intro exI [of _ ev]) (simp add: s1 upload_events_def list_all_iff)
  from run r2 r3 r4 fl meta tr show ?thesis by (intro exI [of _ s'] conjI)
qed



lemma metadata_fields:
  "metadata s' = metadata s \<Longrightarrow>
   has_new_firmware s' = has_new_firmware s \<and> after_rollback s' = after_rollback s \<and>
   should_rollback s' = should_rollback s \<and> has_firmware_to_swap s' = has_firmware_to_swap s \<and>
   swap_size s' = swap_size s"
  by (simp add: metadata_def)

lemma post_pass:
  fixes L :: layout and r :: rx and s :: sys and n :: nat
  assumes ok: "buffer_ok s" and t: "strstr (first_chunk r) (CRLF @ CRLF) \<noteq> None"
  defines "s2 \<equiv> log (Ev_recv n) (log Ev_listen (log Ev_socket s))"
  shows "\<exists>s3. post_body L (first_chunk r) (later_bursts r) s2 = Inr (upload_count s r, s3) \<and>
     upload_pos s3 = length (upload_bytes s r) mod PFB_ALIGN_SIZE \<and>
     length (upload_buffer s3) = PFB_ALIGN_SIZE \<and>
     take (upload_pos s3) (upload_buffer s3) = drop (upload_count s r) (upload_bytes s r) \<and>
     flash s3 = uploaded_flash L s r \<and>
     metadata s3 = metadata s \<and>
     (\<exists>ev. trace s3 = trace s @ [Ev_socket, Ev_listen, Ev_recv n, Ev_initialize_download_slot] @ ev \<and>
           filter is_write ev = block_writes 0 (upload_bytes s r) \<and> upload_events ev)"
proof -
  from t obtain p where p: "strstr (first_chunk r) (CRLF @ CRLF) = Some p" by blast
  have ok2: "buffer_ok s2" using ok by (simp add: s2_def)
  have B: "pending s2 (drop (p + 4) (first_chunk r)) (later_bursts r) = upload_bytes s r"
    by (simp add: pending_def upload_bytes_def post_stream_def post_data_def p s2_def)
  note pb = post_body_spec [OF ok2 p, of L "later_bursts r", unfolded B upload_count_def [symmetric]]
  from pb obtain s3 where r: "post_body L (first_chunk r) (later_bursts r) s2 = Inr (upload_count s r, s3) \<and>
     upload_pos s3 = length (upload_bytes s r) mod PFB_ALIGN_SIZE \<and>
     length (upload_buffer s3) = PFB_ALIGN_SIZE \<and>
     take (upload_pos s3) (upload_buffer s3) = drop (upload_count s r) (upload_bytes s r) \<and>
     flash s3 = flash_range_program
        (flash_range_erase (flash s2) (FLASH_DOWNLOAD_SLOT_START L) (FLASH_SWAP_SPACE_LENGTH L))
        (FLASH_DOWNLOAD_SLOT_START L) (take (upload_count s r) (upload_bytes s r)) \<and>
     metadata s3 = metadata s2 \<and>
     (\<exists>ev. trace s3 = trace s2 @ Ev_initialize_download_slot # ev \<and>
           filter is_write ev = block_writes 0 (upload_bytes s r) \<and> upload_events ev)" ..
  note r1 = r [THEN conjunct1] and r2 = r [THEN conjunct2, THEN conjunct1]
    and r3 = r [THEN conjunct2, THEN conjunct2, THEN conjunct1]
    and r4 = r [THEN conjunct2, THEN conjunct2, THEN conjunct2, THEN conjunct1]
    and r5 = r [THEN conjunct2, THEN conjunct2, THEN conjunct2, THEN conjunct2, THEN conjunct1]
    and r6 = r [THEN conjunct2, THEN conjunct2, THEN conjunct2, THEN conjunct2, THEN conjunct2, THEN conjunct1]
    and r7 = r [THEN conjunct2, THEN conjunct2, THEN conjunct2, THEN conjunct2, THEN conjunct2, THEN conjunct2]
  from r7 obtain ev where ev: "trace s3 = trace s2 @ Ev_initialize_download_slot # ev"
    "filter is_write ev = block_writes 0 (upload_bytes s r)" "upload_events ev" by blast
  have fl: "flash s3 = uploaded_flash L s r"
    using r5 by (simp add: uploaded_flash_def s2_def)
  have meta: "metadata s3 = metadata s" using r6 by (simp add: s2_def)
  have "trace s3 = trace s @ [Ev_socket, Ev_listen, Ev_recv n, Ev_initialize_download_slot] @ ev"
    using ev(1) by (simp add: s2_def)
  with ev(2,3) have tr: "\<exists>ev. trace s3 = trace s @ [Ev_socket, Ev_listen, Ev_recv n, Ev_initialize_download_slot] @ ev \<and>
           filter is_write ev = block_writes 0 (upload_bytes s r) \<and> upload_events ev"
    by blast
  from r1 r2 r3 r4 fl meta tr show ?thesis by (intro exI [of _ s3] conjI)
qed

lemma recv_first: "recv (clamp_len (getSn_RX_RSR r)) r = (first_chunk r, later_bursts r)"
  by (simp add: first_chunk_def later_bursts_def)

lemma gpio_post_iteration:
  assumes req: "gpio_post_request r"
    and pb: "post_body L (first_chunk r) (later_bursts r)
               (log (Ev_recv (clamp_len (getSn_RX_RSR r))) (log Ev_listen (log Ev_socket s))) = Inr (n, s3)"
  shows "recovery_iteration_gpio L chk r s =
     (if chk (flash s3) n \<noteq> 0
      then (Continue, log Ev_close (log (Ev_firmware_sha256_check n (chk (flash s3) n)) s3))
      else (Stop Handoff, install_upload L n (log (Ev_firmware_sha256_check n (chk (flash s3) n)) s3)))"
proof -
  from req have a: "getSn_RX_RSR r \<noteq> 0" and b: "\<not> 2048 \<le> length (first_chunk r)"
    and c: "strstr (first_chunk r) ''GET'' = None" "strstr (first_chunk r) ''get'' = None"
    and d: "strstr (first_chunk r) ''POST'' \<noteq> None \<or> strstr (first_chunk r) ''post'' \<noteq> None"
    by (simp_all add: gpio_post_request_def served_def)
  show ?thesis
    unfolding recovery_iteration_gpio_def Let_def recv_first
    using a b c d by (simp add: pb Let_def)
qed

lemma flags_post_iteration:
  assumes req: "flags_post_request r"
    and pb: "post_body L (first_chunk r) (later_bursts r)
               (log (Ev_recv (clamp_len (getSn_RX_RSR r))) (log Ev_listen (log Ev_socket s))) = Inr (n, s3)"
  shows "recovery_iteration_flags L chk r s =
     (if chk (flash s3) n \<noteq> 0
      then (Continue, False, log Ev_close (log (Ev_firmware_sha256_check n (chk (flash s3) n)) s3))
      else (Stop Reset, False,
            log Ev_perform_update
              (pfb_mark_download_slot_as_valid 0
                 (log (Ev_firmware_sha256_check n (chk (flash s3) n)) s3))))"
proof -
  from req have a: "getSn_RX_RSR r \<noteq> 0" and b: "\<not> 2048 \<le> length (first_chunk r)"
    and c: "strstr (first_chunk r) ''GET /recover'' = None"
    and d: "strstr (first_chunk r) ''POST'' \<noteq> None"
    by (simp_all add: flags_post_request_def served_def)
  show ?thesis
    unfolding recovery_iteration_flags_def Let_def recv_first
    using a b c d by (simp add: pb Let_def)
qed



lemma take_padded:
  assumes "c \<notin> set ys"
  shows "(take (length ys) (xs @ replicate n c) = ys) = (take (length ys) xs = ys)"
proof (cases "length ys \<le> length xs")
  case True
  then show ?thesis by simp
next
  case False
  then have lt: "length xs < length ys" by simp
  have r: "take (length ys) xs \<noteq> ys"
  proof
    assume "take (length ys) xs = ys"
    then have "length (take (length ys) xs) = length ys" by simp
    with lt show False by simp
  qed
  have l: "take (length ys) (xs @ replicate n c) \<noteq> ys"
  proof
    assume eq: "take (length ys) (xs @ replicate n c) = ys"
    then have "length (take (length ys) (xs @ replicate n c)) = length ys" by simp
    then have n: "length ys - length xs \<le> n" using lt by simp
    have "ys = xs @ replicate (length ys - length xs) c"
      using eq lt n by (simp add: min_def)
    moreover have "0 < length ys - length xs" using lt by simp
    ultimately have "c \<in> set ys"
      by (metis Un_iff in_set_replicate less_numeral_extra(3) set_append)
    with assms show False by simp
  qed
  from l r show ?thesis by simp
qed

lemma find_sub_replicate:
  assumes "needle \<noteq> []" and "c \<notin> set needle"
  shows "find_sub needle (replicate n c) = None"
proof (induction n)
  case 0
  with assms show ?case by simp
next
  case (Suc n)
  have "take (length needle) (c # replicate n c) \<noteq> needle"
  proof
    assume eq: "take (length needle) (c # replicate n c) = needle"
    obtain a as where n: "needle = a # as" using assms(1) by (cases needle) auto
    with eq have "a = c" by simp
    with n assms(2) show False by simp
  qed
  with Suc show ?case by simp
qed

lemma find_sub_padded:
  assumes "needle \<noteq> []" and "c \<notin> set needle"
  shows "find_sub needle (xs @ replicate n c) = find_sub needle xs"
proof (induction xs)
  case Nil
  with assms show ?case by (simp add: find_sub_replicate)
next
  case (Cons h hs)
  have "(take (length needle) ((h # hs) @ replicate n c) = needle) =
        (take (length needle) (h # hs) = needle)"
    using assms(2) by (rule take_padded)
  with Cons show ?case by simp
qed

lemma strstr_padded:
  assumes "needle \<noteq> []" and "c \<notin> set (bytes_of needle)" and "0 \<notin> set hdr" and "c \<noteq> 0"
  shows "strstr (hdr @ replicate n c) needle = find_sub (bytes_of needle) hdr"
proof -
  have "\<forall>x\<in>set (hdr @ replicate n c). x \<noteq> 0"
    using assms(3,4) by auto
  then have "cstr (hdr @ replicate n c) = hdr @ replicate n c"
    unfolding cstr_def by (simp only: takeWhile_eq_all_conv)
  moreover have "bytes_of needle \<noteq> []" using assms(1) by (simp add: bytes_of_def)
  ultimately show ?thesis
    using assms(2) by (simp add: strstr_def find_sub_padded)
qed



lemma after_event_append:
  "e \<notin> set xs \<Longrightarrow> after_event e (xs @ e # ys) = ys"
  by (induction xs) (auto simp add: after_event_def)

lemma upload_events_mem:
  "upload_events ev \<Longrightarrow> e \<in> set ev \<Longrightarrow> is_write e \<or> is_recv e"
  by (simp add: upload_events_def list_all_iff)

lemma gpio_post_pass:
  fixes L :: layout and chk :: sha256_check and r :: rx and s :: sys
  assumes req: "gpio_post_request r" and ok: "buffer_ok s"
  defines "n \<equiv> upload_count s r"
  defines "ret \<equiv> chk (uploaded_flash L s r) (upload_count s r)"
  shows "\<exists>s3 ev. upload_events ev \<and> filter is_write ev = block_writes 0 (upload_bytes s r) \<and>
     trace s3 = trace s @ [Ev_socket, Ev_listen, Ev_recv (clamp_len (getSn_RX_RSR r)),
                           Ev_initialize_download_slot] @ ev @ [Ev_firmware_sha256_check n ret] \<and>
     flash s3 = uploaded_flash L s r \<and> metadata s3 = metadata s \<and>
     upload_pos s3 = length (upload_bytes s r) mod PFB_ALIGN_SIZE \<and>
     length (upload_buffer s3) = PFB_ALIGN_SIZE \<and>
     take (upload_pos s3) (upload_buffer s3) = drop n (upload_bytes s r) \<and>
     recovery_iteration_gpio L chk r s =
       (if ret \<noteq> 0 then (Continue, log Ev_close s3) else (Stop Handoff, install_upload L n s3))"
proof -
  from req have t: "strstr (first_chunk r) (CRLF @ CRLF) \<noteq> None"
    by (simp add: gpio_post_request_def)
  from post_pass [OF ok t, of L "clamp_len (getSn_RX_RSR r)"]
  obtain s3 where p: "post_body L (first_chunk r) (later_bursts r)
        (log (Ev_recv (clamp_len (getSn_RX_RSR r))) (log Ev_listen (log Ev_socket s))) = Inr (upload_count s r, s3) \<and>
     upload_pos s3 = length (upload_bytes s r) mod PFB_ALIGN_SIZE \<and>
     length (upload_buffer s3) = PFB_ALIGN_SIZE \<and>
     take (upload_pos s3) (upload_buffer s3) = drop (upload_count s r) (upload_bytes s r) \<and>
     flash s3 = uploaded_flash L s r \<and>
     metadata s3 = metadata s \<and>
     (\<exists>ev. trace s3 = trace s @ [Ev_socket, Ev_listen, Ev_recv (clamp_len (getSn_RX_RSR r)), Ev_initialize_download_slot] @ ev \<and>
           filter is_write ev = block_writes 0 (upload_bytes s r) \<and> upload_events ev)" ..
  note p1 = p [THEN conjunct1] and p2 = p [THEN conjunct2, THEN conjunct1]
    and p3 = p [THEN conjunct2, THEN conjunct2, THEN conjunct1]
    and p4 = p [THEN conjunct2, THEN conjunct2, THEN conjunct2, THEN conjunct1]
    and p5 = p [THEN conjunct2, THEN conjunct2, THEN conjunct2, THEN conjunct2, THEN conjunct1]
    and p6 = p [THEN conjunct2, THEN conjunct2, THEN conjunct2, THEN conjunct2, THEN conjunct2, THEN conjunct1]
    and p7 = p [THEN conjunct2, THEN conjunct2, THEN conjunct2, THEN conjunct2, THEN conjunct2, THEN conjunct2]
  from p7 obtain ev where ev: "trace s3 = trace s @ [Ev_socket, Ev_listen,
      Ev_recv (clamp_len (getSn_RX_RSR r)), Ev_initialize_download_slot] @ ev"
    "filter is_write ev = block_writes 0 (upload_bytes s r)" "upload_events ev" by blast
  define s4 where "s4 = log (Ev_firmware_sha256_check n ret) s3"
  have it: "recovery_iteration_gpio L chk r s =
       (if ret \<noteq> 0 then (Continue, log Ev_close s4) else (Stop Handoff, install_upload L n s4))"
    unfolding gpio_post_iteration [OF req p1] s4_def ret_def n_def p5 ..
  have tr: "trace s4 = trace s @ [Ev_socket, Ev_listen, Ev_recv (clamp_len (getSn_RX_RSR r)),
                           Ev_initialize_download_slot] @ ev @ [Ev_firmware_sha256_check n ret]"
    by (simp add: s4_def ev(1))
  have "flash s4 = uploaded_flash L s r" by (simp add: s4_def p5)
  moreover have "metadata s4 = metadata s" by (simp add: s4_def p6)
  moreover have "upload_pos s4 = length (upload_bytes s r) mod PFB_ALIGN_SIZE" by (simp add: s4_def p2)
  moreover have "length (upload_buffer s4) = PFB_ALIGN_SIZE" by (simp add: s4_def p3)
  moreover have "take (upload_pos s4) (upload_buffer s4) = drop n (upload_bytes s r)"
    by (simp add: s4_def p4 n_def)
  ultimately show ?thesis
    using ev(3) ev(2) tr it by (intro exI [of _ s4] exI [of _ ev] conjI)
qed

lemma flags_post_pass:
  fixes L :: layout and chk :: sha256_check and r :: rx and s :: sys
  assumes req: "flags_post_request r" and ok: "buffer_ok s"
  defines "n \<equiv> upload_count s r"
  defines "ret \<equiv> chk (uploaded_flash L s r) (upload_count s r)"
  shows "\<exists>s3 ev. upload_events ev \<and> filter is_write ev = block_writes 0 (upload_bytes s r) \<and>
     trace s3 = trace s @ [Ev_socket, Ev_listen, Ev_recv (clamp_len (getSn_RX_RSR r)),
                           Ev_initialize_download_slot] @ ev @ [Ev_firmware_sha256_check n ret] \<and>
     flash s3 = uploaded_flash L s r \<and> metadata s3 = metadata s \<and>
     upload_pos s3 = length (upload_bytes s r) mod PFB_ALIGN_SIZE \<and>
     length (upload_buffer s3) = PFB_ALIGN_SIZE \<and>
     take (upload_pos s3) (upload_buffer s3) = drop n (upload_bytes s r) \<and>
     recovery_iteration_flags L chk r s =
       (if ret \<noteq> 0 then (Continue, False, log Ev_close s3)
        else (Stop Reset, False, log Ev_perform_update (pfb_mark_download_slot_as_valid 0 s3)))"
proof -
  from req have t: "strstr (first_chunk r) (CRLF @ CRLF) \<noteq> None"
    by (simp add: flags_post_request_def)
  from post_pass [OF ok t, of L "clamp_len (getSn_RX_RSR r)"]
  obtain s3 where p: "post_body L (first_chunk r) (later_bursts r)
        (log (Ev_recv (clamp_len (getSn_RX_RSR r))) (log Ev_listen (log Ev_socket s))) = Inr (upload_count s r, s3) \<and>
     upload_pos s3 = length (upload_bytes s r) mod PFB_ALIGN_SIZE \<and>
     length (upload_buffer s3) = PFB_ALIGN_SIZE \<and>
     take (upload_pos s3) (upload_buffer s3) = drop (upload_count s r) (upload_bytes s r) \<and>
     flash s3 = uploaded_flash L s r \<and>
     metadata s3 = metadata s \<and>
     (\<exists>ev. trace s3 = trace s @ [Ev_socket, Ev_listen, Ev_recv (clamp_len (getSn_RX_RSR r)), Ev_initialize_download_slot] @ ev \<and>
           filter is_write ev = block_writes 0 (upload_bytes s r) \<and> upload_events ev)" ..
  note p1 = p [THEN conjunct1] and p2 = p [THEN conjunct2, THEN conjunct1]
    and p3 = p [THEN conjunct2, THEN conjunct2, THEN conjunct1]
    and p4 = p [THEN conjunct2, THEN conjunct2, THEN conjunct2, THEN conjunct1]
    and p5 = p [THEN conjunct2, THEN conjunct2, THEN conjunct2, THEN conjunct2, THEN conjunct1]
    and p6 = p [THEN conjunct2, THEN conjunct2, THEN conjunct2, THEN conjunct2, THEN conjunct2, THEN conjunct1]
    and p7 = p [THEN conjunct2, THEN conjunct2, THEN conjunct2, THEN conjunct2, THEN conjunct2, THEN conjunct2]
  from p7 obtain ev where ev: "trace s3 = trace s @ [Ev_socket, Ev_listen,
      Ev_recv (clamp_len (getSn_RX_RSR r)), Ev_initialize_download_slot] @ ev"
    "filter is_write ev = block_writes 0 (upload_bytes s r)" "upload_events ev" by blast
  define s4 where "s4 = log (Ev_firmware_sha256_check n ret) s3"
  have it: "recovery_iteration_flags L chk r s =
       (if ret \<noteq> 0 then (Continue, False, log Ev_close s4)
        else (Stop Reset, False, log Ev_perform_update (pfb_mark_download_slot_as_valid 0 s4)))"
    unfolding flags_post_iteration [OF req p1] s4_def ret_def n_def p5 ..
  have tr: "trace s4 = trace s @ [Ev_socket, Ev_listen, Ev_recv (clamp_len (getSn_RX_RSR r)),
                           Ev_initialize_download_slot] @ ev @ [Ev_firmware_sha256_check n ret]"
    by (simp add: s4_def ev(1))
  have "flash s4 = uploaded_flash L s r" by (simp add: s4_def p5)
  moreover have "metadata s4 = metadata s" by (simp add: s4_def p6)
  moreover have "upload_pos s4 = length (upload_bytes s r) mod PFB_ALIGN_SIZE" by (simp add: s4_def p2)
  moreover have "length (upload_buffer s4) = PFB_ALIGN_SIZE" by (simp add: s4_def p3)
  moreover have "take (upload_pos s4) (upload_buffer s4) = drop n (upload_bytes s r)"
    by (simp add: s4_def p4 n_def)
  ultimately show ?thesis
    using ev(3) ev(2) tr it by (intro exI [of _ s4] exI [of _ ev] conjI)
qed



lemma upload_events_not:
  "upload_events ev \<Longrightarrow> \<not> is_write e \<Longrightarrow> \<not> is_recv e \<Longrightarrow> e \<notin> set ev"
  using upload_events_mem by blast

lemma failed_pass_gpio:
  fixes L :: layout and chk :: sha256_check and r :: rx and s :: sys
  assumes req: "gpio_post_request r" and ok: "buffer_ok s"
    and bad: "chk (uploaded_flash L s r) (upload_count s r) \<noteq> 0"
  defines "chk_ev \<equiv> Ev_firmware_sha256_check (upload_count s r) (chk (uploaded_flash L s r) (upload_count s r))"
  shows "\<exists>s' ev. recovery_iteration_gpio L chk r s = (Continue, s') \<and> upload_events ev \<and>
     filter is_write ev = block_writes 0 (upload_bytes s r) \<and>
     trace s' = trace s @ [Ev_socket, Ev_listen, Ev_recv (clamp_len (getSn_RX_RSR r)),
                           Ev_initialize_download_slot] @ ev @ [chk_ev, Ev_close] \<and>
     flash s' = uploaded_flash L s r \<and> metadata s' = metadata s \<and>
     upload_pos s' = length (upload_bytes s r) mod PFB_ALIGN_SIZE \<and>
     length (upload_buffer s') = PFB_ALIGN_SIZE \<and>
     take (upload_pos s') (upload_buffer s') = drop (upload_count s r) (upload_bytes s r)"
proof -
  from gpio_post_pass [OF req ok, where L = L and chk = chk] obtain s3 ev where
    p: "upload_events ev" "filter is_write ev = block_writes 0 (upload_bytes s r)"
     "trace s3 = trace s @ [Ev_socket, Ev_listen, Ev_recv (clamp_len (getSn_RX_RSR r)),
                           Ev_initialize_download_slot] @ ev @ [chk_ev]"
     "flash s3 = uploaded_flash L s r" "metadata s3 = metadata s"
     "upload_pos s3 = length (upload_bytes s r) mod PFB_ALIGN_SIZE"
     "length (upload_buffer s3) = PFB_ALIGN_SIZE"
     "take (upload_pos s3) (upload_buffer s3) = drop (upload_count s r) (upload_bytes s r)"
     "recovery_iteration_gpio L chk r s =
       (if chk (uploaded_flash L s r) (upload_count s r) \<noteq> 0 then (Continue, log Ev_close s3)
        else (Stop Handoff, install_upload L (upload_count s r) s3))"
    unfolding chk_ev_def by blast
  have it: "recovery_iteration_gpio L chk r s = (Continue, log Ev_close s3)"
    using p(9) bad by simp
  have tr: "trace (log Ev_close s3) = trace s @ [Ev_socket, Ev_listen, Ev_recv (clamp_len (getSn_RX_RSR r)),
                           Ev_initialize_download_slot] @ ev @ [chk_ev, Ev_close]"
    by (simp add: p(3))
  have "flash (log Ev_close s3) = uploaded_flash L s r" by (simp add: p(4))
  moreover have "metadata (log Ev_close s3) = metadata s" by (simp add: p(5))
  moreover have "upload_pos (log Ev_close s3) = length (upload_bytes s r) mod PFB_ALIGN_SIZE"
    by (simp add: p(6))
  moreover have "length (upload_buffer (log Ev_close s3)) = PFB_ALIGN_SIZE" by (simp add: p(7))
  moreover have "take (upload_pos (log Ev_close s3)) (upload_buffer (log Ev_close s3)) =
      drop (upload_count s r) (upload_bytes s r)" by (simp add: p(8))
  ultimately show ?thesis
    using it p(1) p(2) tr by (intro exI [of _ "log Ev_close s3"] exI [of _ ev] conjI)
qed


lemma failed_pass_flags:
  fixes L :: layout and chk :: sha256_check and r :: rx and s :: sys
  assumes req: "flags_post_request r" and ok: "buffer_ok s"
    and bad: "chk (uploaded_flash L s r) (upload_count s r) \<noteq> 0"
  defines "chk_ev \<equiv> Ev_firmware_sha256_check (upload_count s r) (chk (uploaded_flash L s r) (upload_count s r))"
  shows "\<exists>s' ev. recovery_iteration_flags L chk r s = (Continue, False, s') \<and> upload_events ev \<and>
     filter is_write ev = block_writes 0 (upload_bytes s r) \<and>
     trace s' = trace s @ [Ev_socket, Ev_listen, Ev_recv (clamp_len (getSn_RX_RSR r)),
                           Ev_initialize_download_slot] @ ev @ [chk_ev, Ev_close] \<and>
     flash s' = uploaded_flash L s r \<and> metadata s' = metadata s \<and>
     upload_pos s' = length (upload_bytes s r) mod PFB_ALIGN_SIZE \<and>
     length (upload_buffer s') = PFB_ALIGN_SIZE \<and>
     take (upload_pos s') (upload_buffer s') = drop (upload_count s r) (upload_bytes s r)"
proof -
  from flags_post_pass [OF req ok, where L = L and chk = chk] obtain s3 ev where
    p: "upload_events ev" "filter is_write ev = block_writes 0 (upload_bytes s r)"
     "trace s3 = trace s @ [Ev_socket, Ev_listen, Ev_recv (clamp_len (getSn_RX_RSR r)),
                           Ev_initialize_download_slot] @ ev @ [chk_ev]"
     "flash s3 = uploaded_flash L s r" "metadata s3 = metadata s"
     "upload_pos s3 = length (upload_bytes s r) mod PFB_ALIGN_SIZE"
     "length (upload_buffer s3) = PFB_ALIGN_SIZE"
     "take (upload_pos s3) (upload_buffer s3) = drop (upload_count s r) (upload_bytes s r)"
     "recovery_iteration_flags L chk r s =
       (if chk (uploaded_flash L s r) (upload_count s r) \<noteq> 0 then (Continue, False, log Ev_close s3)
        else (Stop Reset, False, log Ev_perform_update (pfb_mark_download_slot_as_valid 0 s3)))"
    unfolding chk_ev_def by blast
  have it: "recovery_iteration_flags L chk r s = (Continue, False, log Ev_close s3)"
    using p(9) bad by simp
  have tr: "trace (log Ev_close s3) = trace s @ [Ev_socket, Ev_listen, Ev_recv (clamp_len (getSn_RX_RSR r)),
                           Ev_initialize_download_slot] @ ev @ [chk_ev, Ev_close]"
    by (simp add: p(3))
  have "flash (log Ev_close s3) = uploaded_flash L s r" by (simp add: p(4))
  moreover have "metadata (log Ev_close s3) = metadata s" by (simp add: p(5))
  moreover have "upload_pos (log Ev_close s3) = length (upload_bytes s r) mod PFB_ALIGN_SIZE"
    by (simp add: p(6))
  moreover have "length (upload_buffer (log Ev_close s3)) = PFB_ALIGN_SIZE" by (simp add: p(7))
  moreover have "take (upload_pos (log Ev_close s3)) (upload_buffer (log Ev_close s3)) =
      drop (upload_count s r) (upload_bytes s r)" by (simp add: p(8))
  ultimately show ?thesis
    using it p(1) p(2) tr by (intro exI [of _ "log Ev_close s3"] exI [of _ ev] conjI)
qed



lemma upload_events_no_store:
  "upload_events ev \<Longrightarrow> filter store_or_swap ev = []"
proof (induction ev)
  case Nil
  then show ?case by simp
next
  case (Cons e ev)
  then show ?case by (cases e) (simp_all add: upload_events_def)
qed

lemma upload_events_no_check:
  "upload_events ev \<Longrightarrow> Ev_firmware_sha256_check n ret \<notin> set ev"
  by (rule upload_events_not) simp_all



lemma boot_chain_rollback:
  assumes "should_rollback s"
  shows "fst (boot_chain L s) = Handoff"
    and "trace (snd (boot_chain L s)) = trace s @
           [Ev_swap_images, Ev_firmware_commit, Ev_mark_pico_has_no_new_firmware,
            Ev_mark_is_after_rollback, Ev_mark_download_slot_as_invalid, Ev_jump_to_vtor]"
    and "flash (snd (boot_chain L s)) = swap_images L (swap_size s) (flash s)"
    and "metadata (snd (boot_chain L s)) = (False, True, False, False, swap_size s)"
  using assms
  by (simp_all add: boot_chain_def Let_def pfb_should_rollback_def do_swap_images_def
        pfb_firmware_commit_def pfb_mark_pico_has_no_new_firmware_def
        pfb_mark_is_after_rollback_def pfb_mark_download_slot_as_invalid_def log_def
        pfb_firmware_swap_size_def metadata_def)

lemma boot_chain_swap:
  assumes "\<not> should_rollback s" and "has_firmware_to_swap s"
  shows "fst (boot_chain L s) = Handoff"
    and "trace (snd (boot_chain L s)) = trace s @
           [Ev_swap_images, Ev_mark_pico_has_new_firmware, Ev_mark_is_not_after_rollback,
            Ev_mark_should_rollback, Ev_mark_download_slot_as_invalid, Ev_jump_to_vtor]"
    and "flash (snd (boot_chain L s)) = swap_images L (swap_size s) (flash s)"
    and "metadata (snd (boot_chain L s)) = (True, False, True, False, swap_size s)"
  using assms
  by (simp_all add: boot_chain_def Let_def pfb_should_rollback_def pfb_has_firmware_to_swap_def
        do_swap_images_def pfb_mark_pico_has_new_firmware_def pfb_mark_is_not_after_rollback_def
        pfb_mark_should_rollback_def pfb_mark_download_slot_as_invalid_def log_def
        pfb_firmware_swap_size_def metadata_def)

lemma boot_chain_pass:
  assumes "\<not> should_rollback s" and "\<not> has_firmware_to_swap s"
  shows "fst (boot_chain L s) = Handoff"
    and "trace (snd (boot_chain L s)) = trace s @
           [Ev_firmware_commit, Ev_mark_pico_has_no_new_firmware,
            Ev_mark_download_slot_as_invalid, Ev_jump_to_vtor]"
    and "flash (snd (boot_chain L s)) = flash s"
    and "metadata (snd (boot_chain L s)) = (False, after_rollback s, False, False, swap_size s)"
  using assms
  by (simp_all add: boot_chain_def Let_def pfb_should_rollback_def pfb_has_firmware_to_swap_def
        pfb_firmware_commit_def pfb_mark_pico_has_no_new_firmware_def
        pfb_mark_download_slot_as_invalid_def log_def metadata_def)



lemma verified_pass_gpio:
  fixes L :: layout and chk :: sha256_check and r :: rx and s :: sys
  assumes req: "gpio_post_request r" and ok: "buffer_ok s"
    and good: "chk (uploaded_flash L s r) (upload_count s r) = 0"
  shows "\<exists>s' ev. recovery_iteration_gpio L chk r s = (Stop Handoff, s') \<and> upload_events ev \<and>
     filter is_write ev = block_writes 0 (upload_bytes s r) \<and>
     trace s' = trace s @ [Ev_socket, Ev_listen, Ev_recv (clamp_len (getSn_RX_RSR r)),
                           Ev_initialize_download_slot] @ ev @
       [Ev_firmware_sha256_check (upload_count s r) 0,
        Ev_mark_download_slot_as_valid (upload_count s r), Ev_swap_images, Ev_firmware_commit,
        Ev_mark_pico_has_no_new_firmware, Ev_mark_is_not_after_rollback,
        Ev_mark_download_slot_as_invalid, Ev_jump_to_vtor] \<and>
     flash s' = swap_images L (upload_count s r) (uploaded_flash L s r) \<and>
     metadata s' = (False, False, False, False, upload_count s r) \<and>
     upload_pos s' = length (upload_bytes s r) mod PFB_ALIGN_SIZE \<and>
     length (upload_buffer s') = PFB_ALIGN_SIZE \<and>
     take (upload_pos s') (upload_buffer s') = drop (upload_count s r) (upload_bytes s r)"
proof -
  from gpio_post_pass [OF req ok, where L = L and chk = chk] obtain s3 ev where
    p: "upload_events ev" "filter is_write ev = block_writes 0 (upload_bytes s r)"
     "trace s3 = trace s @ [Ev_socket, Ev_listen, Ev_recv (clamp_len (getSn_RX_RSR r)),
                           Ev_initialize_download_slot] @ ev @
         [Ev_firmware_sha256_check (upload_count s r) (chk (uploaded_flash L s r) (upload_count s r))]"
     "flash s3 = uploaded_flash L s r" "metadata s3 = metadata s"
     "upload_pos s3 = length (upload_bytes s r) mod PFB_ALIGN_SIZE"
     "length (upload_buffer s3) = PFB_ALIGN_SIZE"
     "take (upload_pos s3) (upload_buffer s3) = drop (upload_count s r) (upload_bytes s r)"
     "recovery_iteration_gpio L chk r s =
       (if chk (uploaded_flash L s r) (upload_count s r) \<noteq> 0 then (Continue, log Ev_close s3)
        else (Stop Handoff, install_upload L (upload_count s r) s3))"
    by blast
  define s' where "s' = install_upload L (upload_count s r) s3"
  note defs = s'_def install_upload_def pfb_mark_download_slot_as_valid_def do_swap_images_def
    pfb_firmware_commit_def pfb_mark_pico_has_no_new_firmware_def
    pfb_mark_is_not_after_rollback_def pfb_mark_download_slot_as_invalid_def
    pfb_firmware_swap_size_def log_def
  have it: "recovery_iteration_gpio L chk r s = (Stop Handoff, s')"
    using p(9) good by (simp add: s'_def)
  have tr: "trace s' = trace s @ [Ev_socket, Ev_listen, Ev_recv (clamp_len (getSn_RX_RSR r)),
                           Ev_initialize_download_slot] @ ev @
       [Ev_firmware_sha256_check (upload_count s r) 0,
        Ev_mark_download_slot_as_valid (upload_count s r), Ev_swap_images, Ev_firmware_commit,
        Ev_mark_pico_has_no_new_firmware, Ev_mark_is_not_after_rollback,
        Ev_mark_download_slot_as_invalid, Ev_jump_to_vtor]"
    using p(3) good by (simp add: defs)
  have "flash s' = swap_images L (upload_count s r) (uploaded_flash L s r)"
    using p(4) by (simp add: defs)
  moreover have "metadata s' = (False, False, False, False, upload_count s r)"
    by (simp add: defs metadata_def)
  moreover have "upload_pos s' = length (upload_bytes s r) mod PFB_ALIGN_SIZE"
    using p(6) by (simp add: defs)
  moreover have "length (upload_buffer s') = PFB_ALIGN_SIZE" using p(7) by (simp add: defs)
  moreover have "take (upload_pos s') (upload_buffer s') = drop (upload_count s r) (upload_bytes s r)"
    using p(8) by (simp add: defs)
  ultimately show ?thesis
    using it p(1) p(2) tr by (intro exI [of _ s'] exI [of _ ev] conjI)
qed



















text \<open>
  Every pass of the GPIO server either goes on, leaving the upload buffer in order and making
  no hand-off, or stops; when it stops with a hand-off, its last three calls are those of
  the installation of an upload.
\<close>

lemma iteration_gpio_shape:
  fixes L :: layout and chk :: sha256_check and r :: rx and s :: sys
  assumes ok: "buffer_ok s"
  shows "\<exists>st s' ev. recovery_iteration_gpio L chk r s = (st, s') \<and> trace s' = trace s @ ev \<and>
     (st = Stop Handoff \<longrightarrow>
        suffix [Ev_mark_is_not_after_rollback, Ev_mark_download_slot_as_invalid, Ev_jump_to_vtor] ev) \<and>
     (st \<noteq> Stop Handoff \<longrightarrow> Ev_jump_to_vtor \<notin> set ev) \<and>
     (st = Continue \<longrightarrow> buffer_ok s')"
proof -
  define s2 where "s2 = log (Ev_recv (clamp_len (getSn_RX_RSR r))) (log Ev_listen (log Ev_socket s))"
  have ok2: "buffer_ok s2" using ok by (simp add: s2_def)
  have tr2: "trace s2 = trace s @ [Ev_socket, Ev_listen, Ev_recv (clamp_len (getSn_RX_RSR r))]"
    by (simp add: s2_def)
  consider (idle) "getSn_RX_RSR r = 0"
    | (over) "getSn_RX_RSR r \<noteq> 0" "2048 \<le> length (first_chunk r)"
    | (get) "getSn_RX_RSR r \<noteq> 0" "\<not> 2048 \<le> length (first_chunk r)"
        "strstr (first_chunk r) ''GET'' \<noteq> None \<or> strstr (first_chunk r) ''get'' \<noteq> None"
    | (nohdr) "getSn_RX_RSR r \<noteq> 0" "\<not> 2048 \<le> length (first_chunk r)"
        "strstr (first_chunk r) ''GET'' = None" "strstr (first_chunk r) ''get'' = None"
        "strstr (first_chunk r) ''POST'' \<noteq> None \<or> strstr (first_chunk r) ''post'' \<noteq> None"
        "strstr (first_chunk r) (CRLF @ CRLF) = None"
    | (post) "gpio_post_request r"
    | (other) "getSn_RX_RSR r \<noteq> 0" "\<not> 2048 \<le> length (first_chunk r)"
        "strstr (first_chunk r) ''GET'' = None" "strstr (first_chunk r) ''get'' = None"
        "strstr (first_chunk r) ''POST'' = None" "strstr (first_chunk r) ''post'' = None"
    unfolding gpio_post_request_def served_def by fastforce
  then show ?thesis
  proof cases
    case idle
    have "recovery_iteration_gpio L chk r s = (Continue, log Ev_listen (log Ev_socket s))"
      using idle by (simp add: recovery_iteration_gpio_def Let_def)
    moreover have "trace (log Ev_listen (log Ev_socket s)) = trace s @ [Ev_socket, Ev_listen]"
      by simp
    moreover have "buffer_ok (log Ev_listen (log Ev_socket s))" using ok by simp
    ultimately show ?thesis
      by (intro exI [of _ Continue] exI [of _ "log Ev_listen (log Ev_socket s)"]
            exI [of _ "[Ev_socket, Ev_listen]"]) simp
  next
    case over
    have "recovery_iteration_gpio L chk r s = (Stop Undefined, s2)"
      using over by (simp add: recovery_iteration_gpio_def Let_def recv_first s2_def)
    with tr2 show ?thesis
      by (intro exI [of _ "Stop Undefined"] exI [of _ s2]
            exI [of _ "[Ev_socket, Ev_listen, Ev_recv (clamp_len (getSn_RX_RSR r))]"]) simp
  next
    case get
    show ?thesis
    proof (cases "strstr (first_chunk r) ''REBOOT'' \<noteq> None \<or> strstr (first_chunk r) ''reboot'' \<noteq> None")
      case True
      have "recovery_iteration_gpio L chk r s = (Stop Reset, log Ev_watchdog_reboot s2)"
        using get True by (simp add: recovery_iteration_gpio_def Let_def recv_first s2_def)
      moreover have "trace (log Ev_watchdog_reboot s2) = trace s @
          [Ev_socket, Ev_listen, Ev_recv (clamp_len (getSn_RX_RSR r)), Ev_watchdog_reboot]"
        by (simp add: tr2)
      ultimately show ?thesis
        by (intro exI [of _ "Stop Reset"] exI [of _ "log Ev_watchdog_reboot s2"]
              exI [of _ "[Ev_socket, Ev_listen, Ev_recv (clamp_len (getSn_RX_RSR r)),
                Ev_watchdog_reboot]"]) simp
    next
      case False
      define s3 where "s3 = log Ev_close (log Ev_disconnect (log (Ev_send page_recover_gpio) s2))"
      have "recovery_iteration_gpio L chk r s = (Continue, s3)"
        using get False by (simp add: recovery_iteration_gpio_def Let_def recv_first s2_def s3_def)
      moreover have "trace s3 = trace s @
          [Ev_socket, Ev_listen, Ev_recv (clamp_len (getSn_RX_RSR r)),
           Ev_send page_recover_gpio, Ev_disconnect, Ev_close]"
        by (simp add: tr2 s3_def)
      moreover have "buffer_ok s3" using ok2 by (simp add: s3_def)
      ultimately show ?thesis
        by (intro exI [of _ Continue] exI [of _ s3]
              exI [of _ "[Ev_socket, Ev_listen, Ev_recv (clamp_len (getSn_RX_RSR r)),
                Ev_send page_recover_gpio, Ev_disconnect, Ev_close]"]) simp
    qed
  next
    case nohdr
    have pb: "post_body L (first_chunk r) (later_bursts r) s2 = Inl Undefined"
      using nohdr(6) by (simp add: post_body_def)
    have "recovery_iteration_gpio L chk r s = (Stop Undefined, s2)"
      using nohdr(1-5) unfolding recovery_iteration_gpio_def Let_def recv_first s2_def [symmetric]
      by (simp add: pb)
    with tr2 show ?thesis
      by (intro exI [of _ "Stop Undefined"] exI [of _ s2]
            exI [of _ "[Ev_socket, Ev_listen, Ev_recv (clamp_len (getSn_RX_RSR r))]"]) simp
  next
    case post
    show ?thesis
    proof (cases "chk (uploaded_flash L s r) (upload_count s r) = 0")
      case True
      from verified_pass_gpio [where chk = chk and L = L, OF post ok True] obtain s' ev where
        p: "recovery_iteration_gpio L chk r s = (Stop Handoff, s')"
         "trace s' = trace s @ [Ev_socket, Ev_listen, Ev_recv (clamp_len (getSn_RX_RSR r)),
                           Ev_initialize_download_slot] @ ev @
           [Ev_firmware_sha256_check (upload_count s r) 0,
            Ev_mark_download_slot_as_valid (upload_count s r), Ev_swap_images, Ev_firmware_commit,
            Ev_mark_pico_has_no_new_firmware, Ev_mark_is_not_after_rollback,
            Ev_mark_download_slot_as_invalid, Ev_jump_to_vtor]"
        by blast
      define pre where "pre = [Ev_socket, Ev_listen, Ev_recv (clamp_len (getSn_RX_RSR r)),
                           Ev_initialize_download_slot] @ ev @
           [Ev_firmware_sha256_check (upload_count s r) 0,
            Ev_mark_download_slot_as_valid (upload_count s r), Ev_swap_images, Ev_firmware_commit,
            Ev_mark_pico_has_no_new_firmware]"
      have tr: "trace s' = trace s @ (pre @ [Ev_mark_is_not_after_rollback,
          Ev_mark_download_slot_as_invalid, Ev_jump_to_vtor])"
        by (simp add: p(2) pre_def)
      have sf: "suffix [Ev_mark_is_not_after_rollback, Ev_mark_download_slot_as_invalid,
          Ev_jump_to_vtor] (pre @ [Ev_mark_is_not_after_rollback,
          Ev_mark_download_slot_as_invalid, Ev_jump_to_vtor])"
        by (rule suffixI) simp
      from p(1) tr sf show ?thesis
        by (intro exI [of _ "Stop Handoff"] exI [of _ s']
              exI [of _ "pre @ [Ev_mark_is_not_after_rollback,
                Ev_mark_download_slot_as_invalid, Ev_jump_to_vtor]"]) simp
    next
      case False
      from failed_pass_gpio [where chk = chk and L = L, OF post ok False] obtain s' ev where
        p: "recovery_iteration_gpio L chk r s = (Continue, s')" "upload_events ev"
         "trace s' = trace s @ [Ev_socket, Ev_listen, Ev_recv (clamp_len (getSn_RX_RSR r)),
                           Ev_initialize_download_slot] @ ev @
           [Ev_firmware_sha256_check (upload_count s r) (chk (uploaded_flash L s r) (upload_count s r)),
            Ev_close]"
         "upload_pos s' = length (upload_bytes s r) mod PFB_ALIGN_SIZE"
         "length (upload_buffer s') = PFB_ALIGN_SIZE"
        by blast
      have nj: "Ev_jump_to_vtor \<notin> set ev" using p(2) by (rule upload_events_not) simp_all
      have ok': "buffer_ok s'" by (simp add: buffer_ok_def p(4) p(5) PFB_ALIGN_SIZE_def)
      from p(1) p(3) nj ok' show ?thesis
        by (intro exI [of _ Continue] exI [of _ s']
              exI [of _ "[Ev_socket, Ev_listen, Ev_recv (clamp_len (getSn_RX_RSR r)),
                           Ev_initialize_download_slot] @ ev @
           [Ev_firmware_sha256_check (upload_count s r) (chk (uploaded_flash L s r) (upload_count s r)),
            Ev_close]"]) simp
    qed
  next
    case other
    have "recovery_iteration_gpio L chk r s = (Continue, log Ev_close s2)"
      using other by (simp add: recovery_iteration_gpio_def Let_def recv_first s2_def)
    moreover have "trace (log Ev_close s2) = trace s @
        [Ev_socket, Ev_listen, Ev_recv (clamp_len (getSn_RX_RSR r)), Ev_close]"
      by (simp add: tr2)
    moreover have "buffer_ok (log Ev_close s2)" using ok2 by simp
    ultimately show ?thesis
      by (intro exI [of _ Continue] exI [of _ "log Ev_close s2"]
            exI [of _ "[Ev_socket, Ev_listen, Ev_recv (clamp_len (getSn_RX_RSR r)), Ev_close]"]) simp
  qed
qed

text \<open>
  The same for the whole server loop, and what follows for the boot decision: a run that
  starts the recovery server ends with the calls of none of the three other actions.
\<close>

lemma loop_gpio_shape:
  fixes L :: layout and chk :: sha256_check
  shows "buffer_ok s \<Longrightarrow> \<exists>ev. trace (snd (recovery_loop_gpio L chk net s)) = trace s @ ev \<and>
     (suffix [Ev_mark_is_not_after_rollback, Ev_mark_download_slot_as_invalid, Ev_jump_to_vtor] ev
      \<or> Ev_jump_to_vtor \<notin> set ev)"
proof (induction net arbitrary: s)
  case Nil
  then show ?case by simp
next
  case (Cons r net)
  from iteration_gpio_shape [where chk = chk and L = L and r = r, OF Cons.prems]
  obtain st s' ev where
    p: "recovery_iteration_gpio L chk r s = (st, s')" "trace s' = trace s @ ev"
       "st = Stop Handoff \<longrightarrow>
          suffix [Ev_mark_is_not_after_rollback, Ev_mark_download_slot_as_invalid, Ev_jump_to_vtor] ev"
       "st \<noteq> Stop Handoff \<longrightarrow> Ev_jump_to_vtor \<notin> set ev"
       "st = Continue \<longrightarrow> buffer_ok s'"
    by blast
  show ?case
  proof (cases st)
    case Continue
    with p(5) have ok': "buffer_ok s'" by simp
    from Cons.IH [OF ok'] obtain ev' where
      q: "trace (snd (recovery_loop_gpio L chk net s')) = trace s' @ ev'"
         "suffix [Ev_mark_is_not_after_rollback, Ev_mark_download_slot_as_invalid, Ev_jump_to_vtor] ev'
          \<or> Ev_jump_to_vtor \<notin> set ev'"
      by blast
    have nj: "Ev_jump_to_vtor \<notin> set ev" using p(4) Continue by simp
    have eq: "recovery_loop_gpio L chk (r # net) s = recovery_loop_gpio L chk net s'"
      using p(1) Continue by simp
    have "suffix [Ev_mark_is_not_after_rollback, Ev_mark_download_slot_as_invalid, Ev_jump_to_vtor] (ev @ ev')
          \<or> Ev_jump_to_vtor \<notin> set (ev @ ev')"
      using q(2) nj by (auto intro: suffix_appendI)
    moreover have "trace (snd (recovery_loop_gpio L chk (r # net) s)) = trace s @ (ev @ ev')"
      by (simp only: eq q(1) p(2) append_assoc)
    ultimately show ?thesis by blast
  next
    case (Stop out)
    have eq: "recovery_loop_gpio L chk (r # net) s = (out, s')"
      using p(1) Stop by simp
    have "suffix [Ev_mark_is_not_after_rollback, Ev_mark_download_slot_as_invalid, Ev_jump_to_vtor] ev
          \<or> Ev_jump_to_vtor \<notin> set ev"
      using p(3) p(4) by blast
    moreover have "trace (snd (recovery_loop_gpio L chk (r # net) s)) = trace s @ ev"
      by (simp only: eq p(2) snd_conv)
    ultimately show ?thesis by blast
  qed
qed


lemma no_chain_in_recovery:
  assumes "suffix [Ev_mark_is_not_after_rollback, Ev_mark_download_slot_as_invalid, Ev_jump_to_vtor] ev
      \<or> Ev_jump_to_vtor \<notin> set ev"
  shows "performs a (Ev_recovery_server # ev) \<longleftrightarrow> a = Recovery"
proof (cases "a = Recovery")
  case True
  then show ?thesis by simp
next
  case False
  have "\<not> suffix (action_calls a) (Ev_recovery_server # ev)"
  proof
    assume sf: "suffix (action_calls a) (Ev_recovery_server # ev)"
    then obtain zs where zs: "Ev_recovery_server # ev = zs @ action_calls a"
      by (auto simp add: suffix_def)
    from False obtain pre x where ac: "action_calls a = pre @ [x, Ev_mark_download_slot_as_invalid, Ev_jump_to_vtor]"
        "x \<noteq> Ev_mark_is_not_after_rollback" "pre \<noteq> []"
      by (cases a) auto
    have jin: "Ev_jump_to_vtor \<in> set (Ev_recovery_server # ev)"
      unfolding zs ac(1) by simp
    then have "Ev_jump_to_vtor \<in> set ev" by simp
    with assms obtain ys where ys: "ev = ys @ [Ev_mark_is_not_after_rollback, Ev_mark_download_slot_as_invalid, Ev_jump_to_vtor]"
      by (auto simp add: suffix_def)
    have "(Ev_recovery_server # ys) @ [Ev_mark_is_not_after_rollback, Ev_mark_download_slot_as_invalid, Ev_jump_to_vtor]
        = (zs @ pre) @ [x, Ev_mark_download_slot_as_invalid, Ev_jump_to_vtor]"
      using zs ys ac(1) by simp
    then have "rev ((Ev_recovery_server # ys) @ [Ev_mark_is_not_after_rollback, Ev_mark_download_slot_as_invalid, Ev_jump_to_vtor])
        = rev ((zs @ pre) @ [x, Ev_mark_download_slot_as_invalid, Ev_jump_to_vtor])"
      by (rule arg_cong)
    then have "Ev_mark_is_not_after_rollback = x"
      by simp
    with ac(2) show False by simp
  qed
  with False show ?thesis by (cases a) simp_all
qed

text \<open>
  The calls of the three actions of the boot chain differ in the third call from the end, so
  a run ends with the calls of at most one of them. The boot chain always performs the
  action that the decision table gives for its two flags. In the flag-union build a server
  to which nothing is sent leaves the store and the flash alone and gives way to the chain.
\<close>

lemma chain_calls_after:
  assumes "a \<noteq> Recovery" and "x \<noteq> Recovery"
  shows "suffix (action_calls a) (pre @ action_calls x) \<longleftrightarrow> a = x"
proof
  assume "suffix (action_calls a) (pre @ action_calls x)"
  then obtain ws where "pre @ action_calls x = ws @ action_calls a"
    by (auto simp add: suffix_def)
  then have "rev (pre @ action_calls x) = rev (ws @ action_calls a)"
    by (rule arg_cong)
  with assms show "a = x"
    by (cases a; cases x) simp_all
next
  assume "a = x"
  then show "suffix (action_calls a) (pre @ action_calls x)"
    by (simp add: suffix_def)
qed

lemma performs_after_recovery:
  assumes "x \<noteq> Recovery"
  shows "performs a (Ev_recovery_server # pre @ action_calls x) \<longleftrightarrow> a = Recovery \<or> a = x"
proof (cases "a = Recovery")
  case True
  then show ?thesis by simp
next
  case False
  have "suffix (action_calls a) ((Ev_recovery_server # pre) @ action_calls x) \<longleftrightarrow> a = x"
    using False assms by (rule chain_calls_after)
  with False show ?thesis by (cases a) simp_all
qed

lemma performs_chain_only:
  assumes "x \<noteq> Recovery"
  shows "performs a (action_calls x) \<longleftrightarrow> a = x"
proof (cases "a = Recovery")
  case True
  with assms show ?thesis by (cases x) auto
next
  case False
  have "suffix (action_calls a) ([] @ action_calls x) \<longleftrightarrow> a = x"
    using False assms by (rule chain_calls_after)
  with False show ?thesis by (cases a) simp_all
qed

lemma boot_chain_action:
  "fst (boot_chain L s) = Handoff"
  "trace (snd (boot_chain L s)) =
     trace s @ action_calls (decision_table False (should_rollback s) (has_firmware_to_swap s))"
  "decision_table False (should_rollback s) (has_firmware_to_swap s) \<noteq> Recovery"
proof -
  show "fst (boot_chain L s) = Handoff" by (simp add: boot_chain_def Let_def)
  show "trace (snd (boot_chain L s)) =
     trace s @ action_calls (decision_table False (should_rollback s) (has_firmware_to_swap s))"
  proof (cases "should_rollback s")
    case True
    then show ?thesis by (simp add: boot_chain_rollback(2) decision_table_def)
  next
    case False
    then show ?thesis
      by (cases "has_firmware_to_swap s")
         (simp_all add: boot_chain_swap(2) boot_chain_pass(2) decision_table_def)
  qed
  show "decision_table False (should_rollback s) (has_firmware_to_swap s) \<noteq> Recovery"
    by (simp add: decision_table_def)
qed

lemma idle_loop_flags:
  fixes L :: layout and chk :: sha256_check
  shows "idle net \<Longrightarrow> \<exists>ev. fst (recovery_loop_flags L chk False net s) = None \<and>
     trace (snd (recovery_loop_flags L chk False net s)) = trace s @ ev \<and>
     set ev \<subseteq> {Ev_socket, Ev_listen} \<and>
     metadata (snd (recovery_loop_flags L chk False net s)) = metadata s \<and>
     flash (snd (recovery_loop_flags L chk False net s)) = flash s"
proof (induction net arbitrary: s)
  case Nil
  then show ?case by simp
next
  case (Cons x net)
  obtain w r where x: "x = (w, r)" by (cases x)
  from Cons.prems x have r0: "getSn_RX_RSR r = 0" and rest: "idle net"
    by (simp_all add: idle_def)
  define s1 where "s1 = log Ev_listen (log Ev_socket s)"
  have it: "recovery_iteration_flags L chk r s = (Continue, False, s1)"
    using r0 by (simp add: recovery_iteration_flags_def Let_def s1_def)
  have tr1: "trace s1 = trace s @ [Ev_socket, Ev_listen]" by (simp add: s1_def)
  have m1: "metadata s1 = metadata s" by (simp add: s1_def metadata_log)
  have f1: "flash s1 = flash s" by (simp add: s1_def)
  show ?case
  proof (cases w)
    case False
    then have "recovery_loop_flags L chk False (x # net) s = (None, s)" by (simp add: x)
    then show ?thesis by simp
  next
    case True
    then have eq: "recovery_loop_flags L chk False (x # net) s = recovery_loop_flags L chk False net s1"
      by (simp add: x it)
    from Cons.IH [OF rest, of s1] obtain ev where
      q: "fst (recovery_loop_flags L chk False net s1) = None"
         "trace (snd (recovery_loop_flags L chk False net s1)) = trace s1 @ ev"
         "set ev \<subseteq> {Ev_socket, Ev_listen}"
         "metadata (snd (recovery_loop_flags L chk False net s1)) = metadata s1"
         "flash (snd (recovery_loop_flags L chk False net s1)) = flash s1"
      by blast
    have "trace (snd (recovery_loop_flags L chk False net s1)) = trace s @ ([Ev_socket, Ev_listen] @ ev)"
      by (simp only: q(2) tr1 append_assoc)
    moreover have "set ([Ev_socket, Ev_listen] @ ev) \<subseteq> {Ev_socket, Ev_listen}"
      using q(3) by simp
    ultimately show ?thesis
      unfolding eq using q(1) q(4) q(5) m1 f1 by (intro exI [of _ "[Ev_socket, Ev_listen] @ ev"]) simp
  qed
qed

lemma main_flags_idle:
  fixes L :: layout and chk :: sha256_check
  assumes trig: "recovery_trigger_flags s" and idle: "idle net"
  shows "\<exists>pre. fst (main_flags L chk net s) = Handoff \<and>
     trace (snd (main_flags L chk net s)) = trace s @ Ev_recovery_server # pre @
       action_calls (decision_table False (should_rollback s) (has_firmware_to_swap s)) \<and>
     flash (snd (main_flags L chk net s)) =
       (if should_rollback s \<or> has_firmware_to_swap s then swap_images L (swap_size s) (flash s)
        else flash s)"
proof -
  define s1 where "s1 = log Ev_recovery_server s"
  define s2 where "s2 = snd (recovery_loop_flags L chk False net s1)"
  from idle_loop_flags [where chk = chk and L = L and s = s1, OF idle] obtain ev where
    q: "fst (recovery_loop_flags L chk False net s1) = None"
       "trace s2 = trace s1 @ ev" "metadata s2 = metadata s1" "flash s2 = flash s1"
    unfolding s2_def by blast
  have lp: "recovery_loop_flags L chk False net s1 = (None, s2)"
    using q(1) by (simp add: s2_def prod_eq_iff)
  have run: "main_flags L chk net s = boot_chain L s2"
    using trig by (simp add: main_flags_def s1_def [symmetric] lp)
  have m: "metadata s2 = metadata s" by (simp add: q(3) s1_def metadata_log)
  note mf = metadata_fields [OF m]
  have sr: "should_rollback s2 = should_rollback s" and hf: "has_firmware_to_swap s2 = has_firmware_to_swap s"
    and sz: "swap_size s2 = swap_size s"
    using mf by simp_all
  have fl: "flash s2 = flash s" by (simp add: q(4) s1_def)
  have tr: "trace s2 = trace s @ Ev_recovery_server # ev" by (simp add: q(2) s1_def)
  have a: "fst (main_flags L chk net s) = Handoff" by (simp add: run boot_chain_action(1))
  have b: "trace (snd (main_flags L chk net s)) = trace s @ Ev_recovery_server # ev @
       action_calls (decision_table False (should_rollback s) (has_firmware_to_swap s))"
    by (simp add: run boot_chain_action(2) sr hf tr)
  have c: "flash (snd (main_flags L chk net s)) =
       (if should_rollback s \<or> has_firmware_to_swap s then swap_images L (swap_size s) (flash s)
        else flash s)"
  proof (cases "should_rollback s")
    case True
    then have "should_rollback s2" by (simp add: sr)
    from boot_chain_rollback(3) [OF this] True show ?thesis by (simp add: run sz fl)
  next
    case False
    then have n: "\<not> should_rollback s2" by (simp add: sr)
    show ?thesis
    proof (cases "has_firmware_to_swap s")
      case True
      then have "has_firmware_to_swap s2" by (simp add: hf)
      from boot_chain_swap(3) [OF n this] True show ?thesis by (simp add: run sz fl)
    next
      case f: False
      then have "\<not> has_firmware_to_swap s2" by (simp add: hf)
      from boot_chain_pass(3) [OF n this] False f show ?thesis by (simp add: run fl)
    qed
  qed
  from a b c show ?thesis by blast
qed









section \<open>The concrete requests\<close>


lemma post_header_bytes:
  "post_header =
     [80, 79, 83, 84, 32, 47, 117, 112, 108, 111, 97, 100, 32, 72, 84, 84, 80, 47, 49, 46, 49,
      13, 10, 13, 10]"
  by (simp add: post_header_def bytes_of_def CRLF_def)

lemma post_request_chunk:
  assumes "n < 2000"
  shows "getSn_RX_RSR (post_request (replicate n c)) = 25 + n"
    and "clamp_len (getSn_RX_RSR (post_request (replicate n c))) = 25 + n"
    and "first_chunk (post_request (replicate n c)) =
           post_header @ replicate n c"
    and "later_bursts (post_request (replicate n c)) = []"
proof -
  show rsr: "getSn_RX_RSR (post_request (replicate n c)) = 25 + n"
    by (simp add: getSn_RX_RSR_def post_request_def post_header_bytes)
  show cl: "clamp_len (getSn_RX_RSR (post_request (replicate n c))) = 25 + n"
    using assms by (simp add: rsr clamp_len_def)
  show "first_chunk (post_request (replicate n c)) =
           post_header @ replicate n c"
    unfolding first_chunk_def cl by (simp add: recv_def post_request_def post_header_bytes)
  show "later_bursts (post_request (replicate n c)) = []"
    unfolding later_bursts_def cl by (simp add: recv_def post_request_def post_header_bytes)
qed

lemma post_request_strstr:
  assumes "c = 0x41 \<or> c = 0x42" and "n < 2000"
  shows "strstr (first_chunk (post_request (replicate n c))) ''GET'' = None"
    and "strstr (first_chunk (post_request (replicate n c))) ''get'' = None"
    and "strstr (first_chunk (post_request (replicate n c))) ''GET /recover'' = None"
    and "strstr (first_chunk (post_request (replicate n c))) ''POST'' = Some 0"
    and "strstr (first_chunk (post_request (replicate n c))) (CRLF @ CRLF) = Some 21"
proof -
  have z: "0 \<notin> set (post_header)"
    by (simp add: post_header_bytes)
  have c0: "c \<noteq> 0" using assms(1) by auto
  have pad: "strstr (first_chunk (post_request (replicate n c))) needle =
      find_sub (bytes_of needle) (post_header)"
    if "needle \<noteq> []" "c \<notin> set (bytes_of needle)" for needle
    unfolding post_request_chunk(3) [OF assms(2)] using that z c0 by (rule strstr_padded)
  show "strstr (first_chunk (post_request (replicate n c))) ''GET'' = None"
    using assms(1) by (subst pad) (auto simp add: bytes_of_def post_header_bytes)
  show "strstr (first_chunk (post_request (replicate n c))) ''get'' = None"
    using assms(1) by (subst pad) (auto simp add: bytes_of_def post_header_bytes)
  show "strstr (first_chunk (post_request (replicate n c))) ''GET /recover'' = None"
    using assms(1) by (subst pad) (auto simp add: bytes_of_def post_header_bytes)
  show "strstr (first_chunk (post_request (replicate n c))) ''POST'' = Some 0"
    using assms(1) by (subst pad) (auto simp add: bytes_of_def post_header_bytes)
  show "strstr (first_chunk (post_request (replicate n c))) (CRLF @ CRLF) = Some 21"
    using assms(1) by (subst pad) (auto simp add: bytes_of_def post_header_bytes CRLF_def)
qed

lemma post_request_is_post:
  assumes "c = 0x41 \<or> c = 0x42" and "n < 2000"
  shows "gpio_post_request (post_request (replicate n c))"
    and "flags_post_request (post_request (replicate n c))"
    and "post_stream (post_request (replicate n c)) = replicate n c"
proof -
  note ev = post_request_strstr [OF assms] and ch = post_request_chunk [OF assms(2)]
  have srv: "served (post_request (replicate n c))"
    using assms(2) by (simp add: served_def ch post_header_bytes)
  show "gpio_post_request (post_request (replicate n c))"
    using srv by (simp add: gpio_post_request_def ev)
  show "flags_post_request (post_request (replicate n c))"
    using srv by (simp add: flags_post_request_def ev)
  have "post_data (post_request (replicate n c)) = drop 25 (first_chunk (post_request (replicate n c)))"
    by (simp add: post_data_def ev)
  then have "post_data (post_request (replicate n c)) = replicate n c"
    by (simp add: ch(3) post_header_bytes)
  then show "post_stream (post_request (replicate n c)) = replicate n c"
    by (simp add: post_stream_def stream_def ch(4))
qed

lemma buffer_ok_s0: "buffer_ok s0"
  by (simp add: buffer_ok_def s0_def PFB_ALIGN_SIZE_def)

lemma upload_bytes_fresh:
  "upload_pos s = 0 \<Longrightarrow> upload_bytes s r = post_stream r"
  by (simp add: upload_bytes_def)

lemma post_300_facts:
  "gpio_post_request post_300" "flags_post_request post_300"
  "post_stream post_300 = replicate 300 0x41"
  "clamp_len (getSn_RX_RSR post_300) = 325"
  unfolding post_300_def
  by (simp_all add: post_request_is_post post_request_chunk clamp_len_def)

lemma upload_count_300:
  "upload_pos s = 0 \<Longrightarrow> upload_count s post_300 = 256"
  by (simp add: upload_count_def upload_bytes_fresh post_300_facts PFB_ALIGN_SIZE_def)


lemma post_256_facts:
  "gpio_post_request post_256" "flags_post_request post_256"
  "post_stream post_256 = replicate 256 0x41"
  "clamp_len (getSn_RX_RSR post_256) = 281"
  unfolding post_256_def
  by (simp_all add: post_request_is_post post_request_chunk clamp_len_def)

lemma upload_count_256:
  "upload_pos s = 0 \<Longrightarrow> upload_count s post_256 = 256"
  by (simp add: upload_count_def upload_bytes_fresh post_256_facts PFB_ALIGN_SIZE_def)

lemma buffer_ok_s_armed: "buffer_ok s_armed"
  by (simp add: buffer_ok_def s_armed_def s0_def PFB_ALIGN_SIZE_def)






lemma s_armed_flags:
  "should_rollback s_armed" "\<not> has_firmware_to_swap s_armed" "recovery_trigger_flags s_armed"
  "trace s_armed = []"
  by (simp_all add: s_armed_def s0_def recovery_trigger_flags_def pfb_should_rollback_def)

lemma s0_flags:
  "\<not> should_rollback s0" "\<not> has_firmware_to_swap s0" "\<not> recovery_trigger_flags s0"
  by (simp_all add: s0_def recovery_trigger_flags_def pfb_should_rollback_def
        pfb_has_firmware_to_swap_def pfb_is_after_firmware_update_def pfb_is_after_rollback_def)

lemma pins_trigger: "\<not> recovery_trigger_gpio pins_high" "recovery_trigger_gpio pins_low"
  by (simp_all add: recovery_trigger_gpio_def pins_high_def pins_low_def)

lemma idle_one: "idle [(True, [])]"
  by (simp add: idle_def getSn_RX_RSR_def)

lemma s_staged_flags:
  "\<not> should_rollback s_staged" "has_firmware_to_swap s_staged" "flash s_staged = fl0"
  by (simp_all add: s_staged_def s0_def)















section \<open>Claims about the image swap\<close>

lemma SWAP_ITERATIONS_L0_4096: "SWAP_ITERATIONS L0 4096 = 1"
  by (simp add: SWAP_ITERATIONS_def clamp_swap_size_def L0_def FLASH_SECTOR_SIZE_def)

text \<open>
  Claim C4. The claim says that \<^verbatim>\<open>swap_images\<close> exchanges \<open>ceil(sz / S)\<close>
  sectors, so that the sector holding the last byte of a swap size that is no multiple of
  the sector size is swapped too. The code divides with \<^verbatim>\<open>/\<close>, which truncates. With
  two-sector slots and a persisted swap size of 4097 bytes the loop runs once where the
  claim asks for two iterations: byte 4095 of the application slot is exchanged, byte 4096
  (the last byte of the 4097) keeps its old value.
\<close>

theorem swap_images_drops_partial_sector:
  "SWAP_ITERATIONS L0 4097 = 1 \<and>
   (4097 + FLASH_SECTOR_SIZE - 1) div FLASH_SECTOR_SIZE = 2 \<and>
   swap_images L0 4097 fl0 (FLASH_APP_START L0 + 4095) = 0x55 \<and>
   swap_images L0 4097 fl0 (FLASH_APP_START L0 + 4096) = 0xAA \<and>
   fl0 (FLASH_DOWNLOAD_SLOT_START L0 + 4096) = 0x55"
proof -
  have n: "SWAP_ITERATIONS L0 4097 = 1"
    by (simp add: SWAP_ITERATIONS_def clamp_swap_size_def L0_def FLASH_SECTOR_SIZE_def)
  have sw: "swap_images L0 4097 fl0 = exchanged L0 1 fl0"
    using swap_images_is_exchanged [OF layout_ok_L0, of 4097 fl0] by (simp only: n)
  show ?thesis
    unfolding sw n
    by (simp add: exchanged_def fl0_def L0_def in_range_def FLASH_SECTOR_SIZE_def)
qed

text \<open>
  Claim C5. Swap is self-inverse: on a memory map with disjoint slots, running the swap loop
  twice over the same \<open>n\<close> sectors of the slots, or \<^verbatim>\<open>swap_images\<close> twice with the same
  persisted swap size, restores every byte of the flash.
\<close>

theorem swap_self_inverse:
  assumes "layout_ok L"
  shows "(n * FLASH_SECTOR_SIZE \<le> FLASH_SWAP_SPACE_LENGTH L \<longrightarrow>
            swap_loop L n 0 (swap_loop L n 0 fl) = fl) \<and>
         swap_images L sz (swap_images L sz fl) = fl"
proof
  show "n * FLASH_SECTOR_SIZE \<le> FLASH_SWAP_SPACE_LENGTH L \<longrightarrow>
          swap_loop L n 0 (swap_loop L n 0 fl) = fl"
  proof
    assume le: "n * FLASH_SECTOR_SIZE \<le> FLASH_SWAP_SPACE_LENGTH L"
    show "swap_loop L n 0 (swap_loop L n 0 fl) = fl"
      by (simp only: swap_loop_is_exchanged [OF assms le] exchanged_twice [OF assms le])
  qed
  show "swap_images L sz (swap_images L sz fl) = fl"
    by (simp only: swap_images_is_exchanged [OF assms]
          exchanged_twice [OF assms SWAP_ITERATIONS_bound])
qed

theorem swap_self_inverse_witness:
  "layout_ok L0 \<and> 2 * FLASH_SECTOR_SIZE \<le> FLASH_SWAP_SPACE_LENGTH L0 \<and>
   swap_loop L0 2 0 (swap_loop L0 2 0 fl0) = fl0 \<and>
   swap_images L0 4096 (swap_images L0 4096 fl0) = fl0"
proof -
  have le: "2 * FLASH_SECTOR_SIZE \<le> FLASH_SWAP_SPACE_LENGTH L0"
    by (simp add: L0_def FLASH_SECTOR_SIZE_def)
  show ?thesis
    using swap_self_inverse [OF layout_ok_L0, of 2 fl0 4096] layout_ok_L0 le by simp
qed

text \<open>
  Claim C10. \<^verbatim>\<open>swap_images\<close> changes only the first \<open>SWAP_ITERATIONS * S\<close> bytes of
  each slot: every byte of the application slot and of the download slot at an offset of at
  least \<open>SWAP_ITERATIONS * S\<close> is unchanged, and so is every byte of the info sector.
\<close>

theorem swap_images_frame:
  assumes "layout_ok L"
  shows "(\<forall>off. SWAP_ITERATIONS L sz * FLASH_SECTOR_SIZE \<le> off \<and>
                off < FLASH_SWAP_SPACE_LENGTH L \<longrightarrow>
            swap_images L sz fl (FLASH_APP_START L + off) = fl (FLASH_APP_START L + off) \<and>
            swap_images L sz fl (FLASH_DOWNLOAD_SLOT_START L + off) =
              fl (FLASH_DOWNLOAD_SLOT_START L + off)) \<and>
         (\<forall>k. k < FLASH_SECTOR_SIZE \<longrightarrow>
            swap_images L sz fl (FLASH_INFO_START L + k) = fl (FLASH_INFO_START L + k))"
proof -
  define A where "A = FLASH_APP_START L"
  define D where "D = FLASH_DOWNLOAD_SLOT_START L"
  define I where "I = FLASH_INFO_START L"
  define N where "N = FLASH_SWAP_SPACE_LENGTH L"
  define m where "m = SWAP_ITERATIONS L sz * FLASH_SECTOR_SIZE"
  have m: "m \<le> N" unfolding m_def N_def by (rule SWAP_ITERATIONS_bound)
  have dis: "A + N \<le> D \<or> D + N \<le> A"
    and iA: "I + FLASH_SECTOR_SIZE \<le> A \<or> A + N \<le> I"
    and iD: "I + FLASH_SECTOR_SIZE \<le> D \<or> D + N \<le> I"
    using assms by (simp_all add: layout_ok_def A_def D_def N_def I_def)
  have out: "swap_images L sz fl x = fl x"
    if "\<not> in_range A m x" "\<not> in_range D m x" for x
    unfolding swap_images_is_exchanged [OF assms]
    using that unfolding A_def D_def m_def by (rule exchanged_outside)
  have slots: "swap_images L sz fl (A + off) = fl (A + off) \<and>
               swap_images L sz fl (D + off) = fl (D + off)"
    if "m \<le> off \<and> off < N" for off
  proof
    have "\<not> in_range A m (A + off)" "\<not> in_range D m (A + off)"
      using that dis m unfolding in_range_def by arith+
    then show "swap_images L sz fl (A + off) = fl (A + off)" by (rule out)
    have "\<not> in_range A m (D + off)" "\<not> in_range D m (D + off)"
      using that dis m unfolding in_range_def by arith+
    then show "swap_images L sz fl (D + off) = fl (D + off)" by (rule out)
  qed
  have info: "swap_images L sz fl (I + k) = fl (I + k)" if "k < FLASH_SECTOR_SIZE" for k
  proof -
    have "\<not> in_range A m (I + k)" "\<not> in_range D m (I + k)"
      using that iA iD m unfolding in_range_def by arith+
    then show ?thesis by (rule out)
  qed
  show ?thesis
    using slots info unfolding A_def D_def I_def N_def m_def by blast
qed

theorem swap_images_frame_witness:
  "layout_ok L0 \<and>
   SWAP_ITERATIONS L0 4096 * FLASH_SECTOR_SIZE \<le> 4096 \<and> (4096::nat) < FLASH_SWAP_SPACE_LENGTH L0 \<and>
   swap_images L0 4096 fl0 (FLASH_APP_START L0 + 4096) = fl0 (FLASH_APP_START L0 + 4096) \<and>
   swap_images L0 4096 fl0 (FLASH_DOWNLOAD_SLOT_START L0 + 4096) =
     fl0 (FLASH_DOWNLOAD_SLOT_START L0 + 4096) \<and>
   (7::nat) < FLASH_SECTOR_SIZE \<and>
   swap_images L0 4096 fl0 (FLASH_INFO_START L0 + 7) = fl0 (FLASH_INFO_START L0 + 7)"
proof -
  have 1: "SWAP_ITERATIONS L0 4096 * FLASH_SECTOR_SIZE \<le> 4096"
    by (simp add: SWAP_ITERATIONS_L0_4096 FLASH_SECTOR_SIZE_def)
  have 2: "(4096::nat) < FLASH_SWAP_SPACE_LENGTH L0" by (simp add: L0_def)
  have 3: "(7::nat) < FLASH_SECTOR_SIZE" by (simp add: FLASH_SECTOR_SIZE_def)
  from swap_images_frame [OF layout_ok_L0, of 4096 fl0] 1 2 3 layout_ok_L0
  show ?thesis by blast
qed

section \<open>Claims about the recovery server\<close>




text \<open>
  Claim C6, amended. Let a POST be uploaded from a sound buffer state and let the digest
  check on the uploaded image fail. In the GPIO build the pass ends with the check and
  \<^verbatim>\<open>close\<close>: no call swaps the slots or writes the store, the metadata is unchanged, the
  flash holds the upload, and the server loop goes on to the next connection. In the
  flag-union build the pass itself does the same, but the loop goes on only while the
  two-second window is open or the page has been fetched: when the next loop test finds the
  window closed and no contact was made, the loop is left and the boot chain follows.
\<close>

theorem failed_check_stays_in_recovery:
  fixes L :: layout and chk :: sha256_check and r :: rx and s :: sys
  assumes ok: "buffer_ok s" and bad: "chk (uploaded_flash L s r) (upload_count s r) \<noteq> 0"
  defines "chk_ev \<equiv> Ev_firmware_sha256_check (upload_count s r) (chk (uploaded_flash L s r) (upload_count s r))"
  shows "(gpio_post_request r \<longrightarrow>
           (\<exists>s'. recovery_iteration_gpio L chk r s = (Continue, s') \<and>
                 after_event chk_ev (new_events s s') = [Ev_close] \<and>
                 filter store_or_swap (new_events s s') = [] \<and>
                 metadata s' = metadata s \<and> flash s' = uploaded_flash L s r \<and>
                 (\<forall>net. recovery_loop_gpio L chk (r # net) s = recovery_loop_gpio L chk net s'))) \<and>
         (flags_post_request r \<longrightarrow>
           (\<exists>s'. recovery_iteration_flags L chk r s = (Continue, False, s') \<and>
                 after_event chk_ev (new_events s s') = [Ev_close] \<and>
                 filter store_or_swap (new_events s s') = [] \<and>
                 metadata s' = metadata s \<and> flash s' = uploaded_flash L s r \<and>
                 (\<forall>contact net. recovery_loop_flags L chk contact ((True, r) # net) s =
                                   recovery_loop_flags L chk contact net s') \<and>
                 (\<forall>r' net. recovery_loop_flags L chk False ((True, r) # (False, r') # net) s =
                              (None, s'))))"
proof (intro conjI impI)
  assume req: "gpio_post_request r"
  from failed_pass_gpio [where chk = chk and L = L, OF req ok bad] obtain s' ev where
    p: "recovery_iteration_gpio L chk r s = (Continue, s')" "upload_events ev"
     "trace s' = trace s @ [Ev_socket, Ev_listen, Ev_recv (clamp_len (getSn_RX_RSR r)),
                           Ev_initialize_download_slot] @ ev @ [chk_ev, Ev_close]"
     "flash s' = uploaded_flash L s r" "metadata s' = metadata s"
    unfolding chk_ev_def by blast
  have ne: "new_events s s' = ([Ev_socket, Ev_listen, Ev_recv (clamp_len (getSn_RX_RSR r)),
                           Ev_initialize_download_slot] @ ev) @ chk_ev # [Ev_close]"
    using p(3) by (simp add: new_events_def)
  have notin: "chk_ev \<notin> set ([Ev_socket, Ev_listen, Ev_recv (clamp_len (getSn_RX_RSR r)),
                           Ev_initialize_download_slot] @ ev)"
    using upload_events_no_check [OF p(2)] by (simp add: chk_ev_def)
  have a: "after_event chk_ev (new_events s s') = [Ev_close]"
    unfolding ne using notin by (rule after_event_append)
  have b: "filter store_or_swap (new_events s s') = []"
    unfolding ne by (simp add: upload_events_no_store [OF p(2)] chk_ev_def)
  have c: "\<forall>net. recovery_loop_gpio L chk (r # net) s = recovery_loop_gpio L chk net s'"
    by (simp add: p(1))
  from p(1) a b p(5) p(4) c
  show "\<exists>s'. recovery_iteration_gpio L chk r s = (Continue, s') \<and>
                 after_event chk_ev (new_events s s') = [Ev_close] \<and>
                 filter store_or_swap (new_events s s') = [] \<and>
                 metadata s' = metadata s \<and> flash s' = uploaded_flash L s r \<and>
                 (\<forall>net. recovery_loop_gpio L chk (r # net) s = recovery_loop_gpio L chk net s')"
    by (intro exI [of _ s'] conjI)
next
  assume req: "flags_post_request r"
  from failed_pass_flags [where chk = chk and L = L, OF req ok bad] obtain s' ev where
    p: "recovery_iteration_flags L chk r s = (Continue, False, s')" "upload_events ev"
     "trace s' = trace s @ [Ev_socket, Ev_listen, Ev_recv (clamp_len (getSn_RX_RSR r)),
                           Ev_initialize_download_slot] @ ev @ [chk_ev, Ev_close]"
     "flash s' = uploaded_flash L s r" "metadata s' = metadata s"
    unfolding chk_ev_def by blast
  have ne: "new_events s s' = ([Ev_socket, Ev_listen, Ev_recv (clamp_len (getSn_RX_RSR r)),
                           Ev_initialize_download_slot] @ ev) @ chk_ev # [Ev_close]"
    using p(3) by (simp add: new_events_def)
  have notin: "chk_ev \<notin> set ([Ev_socket, Ev_listen, Ev_recv (clamp_len (getSn_RX_RSR r)),
                           Ev_initialize_download_slot] @ ev)"
    using upload_events_no_check [OF p(2)] by (simp add: chk_ev_def)
  have a: "after_event chk_ev (new_events s s') = [Ev_close]"
    unfolding ne using notin by (rule after_event_append)
  have b: "filter store_or_swap (new_events s s') = []"
    unfolding ne by (simp add: upload_events_no_store [OF p(2)] chk_ev_def)
  have c: "\<forall>contact net. recovery_loop_flags L chk contact ((True, r) # net) s =
                                   recovery_loop_flags L chk contact net s'"
    by (simp add: p(1))
  have d: "\<forall>r' net. recovery_loop_flags L chk False ((True, r) # (False, r') # net) s = (None, s')"
    by (simp add: p(1))
  from p(1) a b p(5) p(4) c d
  show "\<exists>s'. recovery_iteration_flags L chk r s = (Continue, False, s') \<and>
                 after_event chk_ev (new_events s s') = [Ev_close] \<and>
                 filter store_or_swap (new_events s s') = [] \<and>
                 metadata s' = metadata s \<and> flash s' = uploaded_flash L s r \<and>
                 (\<forall>contact net. recovery_loop_flags L chk contact ((True, r) # net) s =
                                   recovery_loop_flags L chk contact net s') \<and>
                 (\<forall>r' net. recovery_loop_flags L chk False ((True, r) # (False, r') # net) s =
                              (None, s'))"
    by (intro exI [of _ s'] conjI)
qed

theorem failed_check_stays_in_recovery_witness:
  "buffer_ok s0 \<and> reject_all (uploaded_flash L0 s0 post_300) (upload_count s0 post_300) \<noteq> 0 \<and>
   gpio_post_request post_300 \<and> flags_post_request post_300 \<and>
   (\<exists>s'. recovery_iteration_gpio L0 reject_all post_300 s0 = (Continue, s') \<and>
         after_event (Ev_firmware_sha256_check 256 1) (new_events s0 s') = [Ev_close] \<and>
         filter store_or_swap (new_events s0 s') = [] \<and> metadata s' = metadata s0) \<and>
   (\<exists>s'. recovery_iteration_flags L0 reject_all post_300 s0 = (Continue, False, s') \<and>
         after_event (Ev_firmware_sha256_check 256 1) (new_events s0 s') = [Ev_close] \<and>
         filter store_or_swap (new_events s0 s') = [] \<and> metadata s' = metadata s0)"
proof -
  have bad: "reject_all (uploaded_flash L0 s0 post_300) (upload_count s0 post_300) \<noteq> 0"
    by (simp add: reject_all_def)
  have cnt: "upload_count s0 post_300 = 256"
    by (rule upload_count_300) (simp add: s0_def)
  have ev: "Ev_firmware_sha256_check (upload_count s0 post_300)
      (reject_all (uploaded_flash L0 s0 post_300) (upload_count s0 post_300)) =
      Ev_firmware_sha256_check 256 1"
    by (simp add: cnt reject_all_def)
  note t = failed_check_stays_in_recovery [where L = L0 and chk = reject_all and r = post_300
      and s = s0, OF buffer_ok_s0 bad, unfolded ev]
  from t [THEN conjunct1, THEN mp, OF post_300_facts(1)]
  have g: "\<exists>s'. recovery_iteration_gpio L0 reject_all post_300 s0 = (Continue, s') \<and>
         after_event (Ev_firmware_sha256_check 256 1) (new_events s0 s') = [Ev_close] \<and>
         filter store_or_swap (new_events s0 s') = [] \<and> metadata s' = metadata s0"
    by blast
  from t [THEN conjunct2, THEN mp, OF post_300_facts(2)]
  have f: "\<exists>s'. recovery_iteration_flags L0 reject_all post_300 s0 = (Continue, False, s') \<and>
         after_event (Ev_firmware_sha256_check 256 1) (new_events s0 s') = [Ev_close] \<and>
         filter store_or_swap (new_events s0 s') = [] \<and> metadata s' = metadata s0"
    by blast
  from buffer_ok_s0 bad post_300_facts(1) post_300_facts(2) g f show ?thesis
    by (intro conjI)
qed

text \<open>
  Claim C6 as stated fails on the flag-union build: a device with a rollback armed receives
  a POST of 300 bytes directly, the digest check fails, and no further network event comes.
  The run does not remain in recovery: after \<^verbatim>\<open>close\<close> it swaps the images, commits and
  starts the application.
\<close>

theorem failed_check_flags_counterexample:
  "fst (main_flags L0 reject_all [(True, post_300)] s_armed) = Handoff \<and>
   after_event (Ev_firmware_sha256_check 256 1)
     (trace (snd (main_flags L0 reject_all [(True, post_300)] s_armed))) =
     [Ev_close, Ev_swap_images, Ev_firmware_commit, Ev_mark_pico_has_no_new_firmware,
      Ev_mark_is_after_rollback, Ev_mark_download_slot_as_invalid, Ev_jump_to_vtor]"
proof -
  define s1 where "s1 = log Ev_recovery_server s_armed"
  have ok: "buffer_ok s1" by (simp add: s1_def s_armed_def buffer_ok_def s0_def PFB_ALIGN_SIZE_def)
  have pos: "upload_pos s1 = 0" by (simp add: s1_def s_armed_def s0_def)
  have tr1: "trace s1 = [Ev_recovery_server]" by (simp add: s1_def s_armed_def s0_def)
  have m1: "metadata s1 = (False, False, True, False, 0)"
    unfolding s1_def metadata_log by (simp add: s_armed_def s0_def metadata_def)
  have cnt: "upload_count s1 post_300 = 256" using pos by (rule upload_count_300)
  have bad: "reject_all (uploaded_flash L0 s1 post_300) (upload_count s1 post_300) \<noteq> 0"
    by (simp add: reject_all_def)
  from failed_pass_flags [where chk = reject_all and L = L0, OF post_300_facts(2) ok bad]
  obtain s' ev where
    p: "recovery_iteration_flags L0 reject_all post_300 s1 = (Continue, False, s')" "upload_events ev"
     "trace s' = trace s1 @ [Ev_socket, Ev_listen, Ev_recv (clamp_len (getSn_RX_RSR post_300)),
                           Ev_initialize_download_slot] @ ev @
         [Ev_firmware_sha256_check (upload_count s1 post_300)
            (reject_all (uploaded_flash L0 s1 post_300) (upload_count s1 post_300)), Ev_close]"
     "metadata s' = metadata s1"
    by blast
  have sr: "should_rollback s'" using p(4) m1 by (simp add: metadata_def)
  have trig: "recovery_trigger_flags s_armed"
    by (simp add: recovery_trigger_flags_def pfb_should_rollback_def s_armed_def)
  have loop: "recovery_loop_flags L0 reject_all False [(True, post_300)] s1 = (None, s')"
    by (simp add: p(1))
  have run: "main_flags L0 reject_all [(True, post_300)] s_armed = boot_chain L0 s'"
    using trig loop by (simp add: main_flags_def s1_def)
  have tr': "trace s' = ([Ev_recovery_server, Ev_socket, Ev_listen, Ev_recv 325,
                           Ev_initialize_download_slot] @ ev) @
         Ev_firmware_sha256_check 256 1 # [Ev_close]"
    using p(3) by (simp add: tr1 cnt reject_all_def post_300_facts)
  have notin: "Ev_firmware_sha256_check 256 1 \<notin> set ([Ev_recovery_server, Ev_socket, Ev_listen,
      Ev_recv 325, Ev_initialize_download_slot] @ ev)"
    using upload_events_no_check [OF p(2)] by simp
  have full: "trace (snd (boot_chain L0 s')) = ([Ev_recovery_server, Ev_socket, Ev_listen, Ev_recv 325,
                           Ev_initialize_download_slot] @ ev) @
         Ev_firmware_sha256_check 256 1 # [Ev_close, Ev_swap_images, Ev_firmware_commit,
           Ev_mark_pico_has_no_new_firmware, Ev_mark_is_after_rollback,
           Ev_mark_download_slot_as_invalid, Ev_jump_to_vtor]"
    by (simp add: boot_chain_rollback(2) [OF sr] tr')
  have "after_event (Ev_firmware_sha256_check 256 1) (trace (snd (boot_chain L0 s'))) =
     [Ev_close, Ev_swap_images, Ev_firmware_commit, Ev_mark_pico_has_no_new_firmware,
      Ev_mark_is_after_rollback, Ev_mark_download_slot_as_invalid, Ev_jump_to_vtor]"
    unfolding full using notin by (rule after_event_append)
  then show ?thesis
    using boot_chain_rollback(1) [OF sr, of L0] by (simp only: run simp_thms)
qed







section \<open>Claims about the boot decision\<close>

text \<open>
  Claim C1, amended. In the GPIO build the boot decision is total and follows the table of
  section 4.E: from a sound buffer state and for every pin reading, flag values, swap size
  and network input, the run performs an action if and only if it is the one the table
  gives for the recovery trigger, \<^verbatim>\<open>should_rollback\<close> and the firmware-to-swap flag, so
  exactly one action is chosen. In the flag-union build the recovery trigger is the
  disjunction of the four flags: when no flag is set the run performs Passthrough alone;
  when a flag is set and nothing arrives on the network, the run performs Recovery and then
  also the action the table gives for a false trigger.
\<close>

theorem boot_decision:
  fixes L :: layout and chk :: sha256_check
  assumes ok: "buffer_ok s"
  shows "(performs a (new_events s (snd (main_gpio L chk g net s))) \<longleftrightarrow>
            a = decision_table (recovery_trigger_gpio g) (should_rollback s) (has_firmware_to_swap s)) \<and>
         (\<not> recovery_trigger_flags s \<longrightarrow>
            (performs a (new_events s (snd (main_flags L chk fnet s))) \<longleftrightarrow> a = Passthrough)) \<and>
         (recovery_trigger_flags s \<and> idle fnet \<longrightarrow>
            (performs a (new_events s (snd (main_flags L chk fnet s))) \<longleftrightarrow>
               a = Recovery \<or>
               a = decision_table False (should_rollback s) (has_firmware_to_swap s)))"
proof (intro conjI impI)
  show "performs a (new_events s (snd (main_gpio L chk g net s))) \<longleftrightarrow>
            a = decision_table (recovery_trigger_gpio g) (should_rollback s) (has_firmware_to_swap s)"
  proof (cases "recovery_trigger_gpio g")
    case True
    have ok1: "buffer_ok (log Ev_recovery_server s)" using ok by simp
    from loop_gpio_shape [where chk = chk and L = L and net = net, OF ok1] obtain ev where
      q: "trace (snd (recovery_loop_gpio L chk net (log Ev_recovery_server s))) =
            trace (log Ev_recovery_server s) @ ev"
         "suffix [Ev_mark_is_not_after_rollback, Ev_mark_download_slot_as_invalid, Ev_jump_to_vtor] ev
          \<or> Ev_jump_to_vtor \<notin> set ev"
      by blast
    have "new_events s (snd (main_gpio L chk g net s)) = Ev_recovery_server # ev"
      using True by (simp add: main_gpio_def q(1) new_events_def)
    then show ?thesis
      using no_chain_in_recovery [OF q(2), of a] True by (simp add: decision_table_def)
  next
    case False
    have "new_events s (snd (main_gpio L chk g net s)) =
        action_calls (decision_table False (should_rollback s) (has_firmware_to_swap s))"
      using False by (simp add: main_gpio_def boot_chain_action(2) new_events_def)
    then show ?thesis
      using performs_chain_only [OF boot_chain_action(3), of a s] False by simp
  qed
next
  assume nt: "\<not> recovery_trigger_flags s"
  then have f: "\<not> should_rollback s" "\<not> has_firmware_to_swap s"
    by (simp_all add: recovery_trigger_flags_def pfb_should_rollback_def pfb_has_firmware_to_swap_def)
  have "new_events s (snd (main_flags L chk fnet s)) = action_calls Passthrough"
    using nt f by (simp add: main_flags_def boot_chain_pass(2) new_events_def)
  then show "performs a (new_events s (snd (main_flags L chk fnet s))) \<longleftrightarrow> a = Passthrough"
    using performs_chain_only [of Passthrough a] by simp
next
  assume "recovery_trigger_flags s \<and> idle fnet"
  then have trig: "recovery_trigger_flags s" and idle: "idle fnet" by simp_all
  from main_flags_idle [where chk = chk and L = L, OF trig idle] obtain pre where
    p: "trace (snd (main_flags L chk fnet s)) = trace s @ Ev_recovery_server # pre @
       action_calls (decision_table False (should_rollback s) (has_firmware_to_swap s))"
    by blast
  have "new_events s (snd (main_flags L chk fnet s)) = Ev_recovery_server # pre @
       action_calls (decision_table False (should_rollback s) (has_firmware_to_swap s))"
    by (simp add: p new_events_def)
  then show "performs a (new_events s (snd (main_flags L chk fnet s))) \<longleftrightarrow>
               a = Recovery \<or>
               a = decision_table False (should_rollback s) (has_firmware_to_swap s)"
    using performs_after_recovery [OF boot_chain_action(3), of a pre s] by simp
qed

theorem boot_decision_witness:
  "buffer_ok s_armed \<and> buffer_ok s0 \<and>
   performs Rollback (new_events s_armed (snd (main_gpio L0 reject_all pins_high [] s_armed))) \<and>
   \<not> performs Passthrough (new_events s_armed (snd (main_gpio L0 reject_all pins_high [] s_armed))) \<and>
   performs Recovery (new_events s_armed (snd (main_gpio L0 reject_all pins_low [post_300] s_armed))) \<and>
   \<not> performs Rollback (new_events s_armed (snd (main_gpio L0 reject_all pins_low [post_300] s_armed))) \<and>
   \<not> recovery_trigger_flags s0 \<and>
   performs Passthrough (new_events s0 (snd (main_flags L0 reject_all [] s0))) \<and>
   recovery_trigger_flags s_armed \<and> idle [(True, [])] \<and>
   performs Recovery (new_events s_armed (snd (main_flags L0 reject_all [(True, [])] s_armed))) \<and>
   performs Rollback (new_events s_armed (snd (main_flags L0 reject_all [(True, [])] s_armed)))"
proof -
  note a = boot_decision [where L = L0 and chk = reject_all and s = s_armed and g = pins_high
      and net = "[]" and fnet = "[(True, [])]", OF buffer_ok_s_armed]
  note b = boot_decision [where L = L0 and chk = reject_all and s = s_armed and g = pins_low
      and net = "[post_300]" and fnet = "[(True, [])]", OF buffer_ok_s_armed]
  note c = boot_decision [where L = L0 and chk = reject_all and s = s0 and g = pins_high
      and net = "[]" and fnet = "[]", OF buffer_ok_s0]
  have t1: "decision_table (recovery_trigger_gpio pins_high) (should_rollback s_armed)
      (has_firmware_to_swap s_armed) = Rollback"
    by (simp add: decision_table_def pins_trigger s_armed_flags)
  have t2: "decision_table (recovery_trigger_gpio pins_low) (should_rollback s_armed)
      (has_firmware_to_swap s_armed) = Recovery"
    by (simp add: decision_table_def pins_trigger)
  have t3: "decision_table False (should_rollback s_armed) (has_firmware_to_swap s_armed) = Rollback"
    by (simp add: decision_table_def s_armed_flags)
  have 1: "performs Rollback (new_events s_armed (snd (main_gpio L0 reject_all pins_high [] s_armed)))"
    using a [where a = Rollback, THEN conjunct1] by (simp add: t1)
  have 2: "\<not> performs Passthrough (new_events s_armed (snd (main_gpio L0 reject_all pins_high [] s_armed)))"
    using a [where a = Passthrough, THEN conjunct1] by (simp add: t1)
  have 3: "performs Recovery (new_events s_armed (snd (main_gpio L0 reject_all pins_low [post_300] s_armed)))"
    using b [where a = Recovery, THEN conjunct1] by (simp add: t2)
  have 4: "\<not> performs Rollback (new_events s_armed (snd (main_gpio L0 reject_all pins_low [post_300] s_armed)))"
    using b [where a = Rollback, THEN conjunct1] by (simp add: t2)
  have 5: "performs Passthrough (new_events s0 (snd (main_flags L0 reject_all [] s0)))"
    using c [where a = Passthrough, THEN conjunct2, THEN conjunct1, THEN mp, OF s0_flags(3)]
    by simp
  have ti: "recovery_trigger_flags s_armed \<and> idle [(True, [])]"
    using s_armed_flags(3) idle_one by simp
  have 6: "performs Recovery (new_events s_armed (snd (main_flags L0 reject_all [(True, [])] s_armed)))"
    using a [where a = Recovery, THEN conjunct2, THEN conjunct2, THEN mp, OF ti] by simp
  have 7: "performs Rollback (new_events s_armed (snd (main_flags L0 reject_all [(True, [])] s_armed)))"
    using a [where a = Rollback, THEN conjunct2, THEN conjunct2, THEN mp, OF ti] by (simp add: t3)
  from buffer_ok_s_armed buffer_ok_s0 1 2 3 4 s0_flags(3) 5 s_armed_flags(3) idle_one 6 7
  show ?thesis by (intro conjI)
qed

text \<open>
  Claim C1 as stated fails on the flag-union build: on a device with a rollback armed, to
  which nothing is sent during one pass of the server, the table gives Recovery, and the
  run starts the recovery server and then rolls back, two of the four actions in one boot.
\<close>

theorem boot_decision_flags_counterexample:
  "decision_table (recovery_trigger_flags s_armed) (should_rollback s_armed)
     (has_firmware_to_swap s_armed) = Recovery \<and>
   fst (main_flags L0 reject_all [(True, [])] s_armed) = Handoff \<and>
   trace (snd (main_flags L0 reject_all [(True, [])] s_armed)) =
     [Ev_recovery_server, Ev_socket, Ev_listen,
      Ev_swap_images, Ev_firmware_commit, Ev_mark_pico_has_no_new_firmware,
      Ev_mark_is_after_rollback, Ev_mark_download_slot_as_invalid, Ev_jump_to_vtor] \<and>
   performs Recovery (trace (snd (main_flags L0 reject_all [(True, [])] s_armed))) \<and>
   performs Rollback (trace (snd (main_flags L0 reject_all [(True, [])] s_armed)))"
proof -
  define s1 where "s1 = log Ev_listen (log Ev_socket (log Ev_recovery_server s_armed))"
  have it: "recovery_iteration_flags L0 reject_all [] (log Ev_recovery_server s_armed) =
      (Continue, False, s1)"
    by (simp add: recovery_iteration_flags_def Let_def getSn_RX_RSR_def s1_def)
  have run: "main_flags L0 reject_all [(True, [])] s_armed = boot_chain L0 s1"
    using s_armed_flags(3) by (simp add: main_flags_def it)
  have sr: "should_rollback s1" by (simp add: s1_def log_def s_armed_flags(1))
  have tr1: "trace s1 = [Ev_recovery_server, Ev_socket, Ev_listen]"
    by (simp add: s1_def s_armed_flags(4))
  have tr: "trace (snd (main_flags L0 reject_all [(True, [])] s_armed)) =
     [Ev_recovery_server, Ev_socket, Ev_listen,
      Ev_swap_images, Ev_firmware_commit, Ev_mark_pico_has_no_new_firmware,
      Ev_mark_is_after_rollback, Ev_mark_download_slot_as_invalid, Ev_jump_to_vtor]"
    by (simp add: run boot_chain_rollback(2) [OF sr] tr1)
  have d: "decision_table (recovery_trigger_flags s_armed) (should_rollback s_armed)
     (has_firmware_to_swap s_armed) = Recovery"
    by (simp add: decision_table_def s_armed_flags(3))
  have h: "fst (main_flags L0 reject_all [(True, [])] s_armed) = Handoff"
    by (simp add: run boot_chain_rollback(1) [OF sr])
  have r: "performs Recovery (trace (snd (main_flags L0 reject_all [(True, [])] s_armed)))"
    unfolding tr by simp
  have b: "performs Rollback (trace (snd (main_flags L0 reject_all [(True, [])] s_armed)))"
    unfolding tr by (simp add: suffix_def)
  from d h tr r b show ?thesis by (intro conjI)
qed

text \<open>
  Claim C3. When \<^verbatim>\<open>should_rollback\<close> is clear and a firmware is staged for swapping, the
  boot chain calls \<^verbatim>\<open>swap_images\<close>, sets \<^verbatim>\<open>has_new_firmware\<close>, clears
  \<^verbatim>\<open>after_rollback\<close>, sets \<^verbatim>\<open>should_rollback\<close>, invalidates the download slot and hands
  off, in this order. In the GPIO build with the recovery trigger false this is the whole
  run; the next such reset from the state it leaves rolls back (and on disjoint slots
  restores the flash), unless the application has called \<^verbatim>\<open>pfb_firmware_commit\<close>, after
  which the next reset swaps nothing. In the flag-union build a staged firmware sets the
  recovery trigger, and the same calls end the run once the server has given way.
\<close>

theorem swap_and_arm_then_rollback:
  fixes L :: layout and chk :: sha256_check
  assumes nr: "\<not> should_rollback s" and hf: "has_firmware_to_swap s"
  defines "s' \<equiv> snd (boot_chain L s)"
  shows "fst (boot_chain L s) = Handoff \<and>
     new_events s s' =
       [Ev_swap_images, Ev_mark_pico_has_new_firmware, Ev_mark_is_not_after_rollback,
        Ev_mark_should_rollback, Ev_mark_download_slot_as_invalid, Ev_jump_to_vtor] \<and>
     flash s' = swap_images L (swap_size s) (flash s) \<and>
     has_new_firmware s' \<and> \<not> after_rollback s' \<and> should_rollback s' \<and>
     \<not> has_firmware_to_swap s' \<and>
     (\<not> recovery_trigger_gpio g \<longrightarrow>
        main_gpio L chk g net s = boot_chain L s \<and>
        fst (main_gpio L chk g net s') = Handoff \<and>
        new_events s' (snd (main_gpio L chk g net s')) =
          [Ev_swap_images, Ev_firmware_commit, Ev_mark_pico_has_no_new_firmware,
           Ev_mark_is_after_rollback, Ev_mark_download_slot_as_invalid, Ev_jump_to_vtor] \<and>
        (layout_ok L \<longrightarrow> flash (snd (main_gpio L chk g net s')) = flash s) \<and>
        new_events (pfb_firmware_commit s') (snd (main_gpio L chk g net (pfb_firmware_commit s'))) =
          [Ev_firmware_commit, Ev_mark_pico_has_no_new_firmware,
           Ev_mark_download_slot_as_invalid, Ev_jump_to_vtor] \<and>
        flash (snd (main_gpio L chk g net (pfb_firmware_commit s'))) = flash s') \<and>
     recovery_trigger_flags s \<and>
     (idle fnet \<longrightarrow>
        fst (main_flags L chk fnet s) = Handoff \<and>
        suffix
          [Ev_swap_images, Ev_mark_pico_has_new_firmware, Ev_mark_is_not_after_rollback,
           Ev_mark_should_rollback, Ev_mark_download_slot_as_invalid, Ev_jump_to_vtor]
          (new_events s (snd (main_flags L chk fnet s))) \<and>
        flash (snd (main_flags L chk fnet s)) = swap_images L (swap_size s) (flash s))"
proof -
  note sw = boot_chain_swap [OF nr hf, of L]
  note mf = sw(4) [folded s'_def]
  have flags: "has_new_firmware s'" "\<not> after_rollback s'" "should_rollback s'"
    "\<not> has_firmware_to_swap s'" "swap_size s' = swap_size s"
    using mf by (simp_all add: metadata_def)
  have ev: "new_events s s' =
       [Ev_swap_images, Ev_mark_pico_has_new_firmware, Ev_mark_is_not_after_rollback,
        Ev_mark_should_rollback, Ev_mark_download_slot_as_invalid, Ev_jump_to_vtor]"
    by (simp add: s'_def sw(2) new_events_def)
  have fl: "flash s' = swap_images L (swap_size s) (flash s)"
    by (simp add: s'_def sw(3))
  note rb = boot_chain_rollback [OF flags(3), of L]
  define sc where "sc = pfb_firmware_commit s'"
  have c: "\<not> should_rollback sc" "\<not> has_firmware_to_swap sc" "flash sc = flash s'"
    using flags(4) by (simp_all add: sc_def pfb_firmware_commit_def log_def)
  note ps = boot_chain_pass [OF c(1) c(2), of L]
  have gp: "main_gpio L chk g net s = boot_chain L s \<and>
        fst (main_gpio L chk g net s') = Handoff \<and>
        new_events s' (snd (main_gpio L chk g net s')) =
          [Ev_swap_images, Ev_firmware_commit, Ev_mark_pico_has_no_new_firmware,
           Ev_mark_is_after_rollback, Ev_mark_download_slot_as_invalid, Ev_jump_to_vtor] \<and>
        (layout_ok L \<longrightarrow> flash (snd (main_gpio L chk g net s')) = flash s) \<and>
        new_events sc (snd (main_gpio L chk g net sc)) =
          [Ev_firmware_commit, Ev_mark_pico_has_no_new_firmware,
           Ev_mark_download_slot_as_invalid, Ev_jump_to_vtor] \<and>
        flash (snd (main_gpio L chk g net sc)) = flash s'"
    if nt: "\<not> recovery_trigger_gpio g"
  proof -
    have m: "main_gpio L chk g net t = boot_chain L t" for t
      using nt by (simp add: main_gpio_def)
    have 1: "fst (main_gpio L chk g net s') = Handoff" by (simp add: m rb(1))
    have 2: "new_events s' (snd (main_gpio L chk g net s')) =
          [Ev_swap_images, Ev_firmware_commit, Ev_mark_pico_has_no_new_firmware,
           Ev_mark_is_after_rollback, Ev_mark_download_slot_as_invalid, Ev_jump_to_vtor]"
      by (simp add: m rb(2) new_events_def)
    have 3: "layout_ok L \<longrightarrow> flash (snd (main_gpio L chk g net s')) = flash s"
    proof
      assume lo: "layout_ok L"
      have "swap_images L (swap_size s) (swap_images L (swap_size s) (flash s)) = flash s"
        by (simp only: swap_images_is_exchanged [OF lo]
              exchanged_twice [OF lo SWAP_ITERATIONS_bound])
      then show "flash (snd (main_gpio L chk g net s')) = flash s"
        by (simp add: m rb(3) flags(5) fl)
    qed
    have 4: "new_events sc (snd (main_gpio L chk g net sc)) =
          [Ev_firmware_commit, Ev_mark_pico_has_no_new_firmware,
           Ev_mark_download_slot_as_invalid, Ev_jump_to_vtor]"
      by (simp add: m ps(2) new_events_def)
    have 5: "flash (snd (main_gpio L chk g net sc)) = flash s'"
      by (simp add: m ps(3) c(3))
    from m [of s] 1 2 3 4 5 show ?thesis by (intro conjI)
  qed
  have trig: "recovery_trigger_flags s"
    using hf by (simp add: recovery_trigger_flags_def pfb_has_firmware_to_swap_def)
  have fp: "fst (main_flags L chk fnet s) = Handoff \<and>
        suffix
          [Ev_swap_images, Ev_mark_pico_has_new_firmware, Ev_mark_is_not_after_rollback,
           Ev_mark_should_rollback, Ev_mark_download_slot_as_invalid, Ev_jump_to_vtor]
          (new_events s (snd (main_flags L chk fnet s))) \<and>
        flash (snd (main_flags L chk fnet s)) = swap_images L (swap_size s) (flash s)"
    if idle: "idle fnet"
  proof -
    from main_flags_idle [where chk = chk and L = L, OF trig idle] obtain pre where
      p: "fst (main_flags L chk fnet s) = Handoff"
         "trace (snd (main_flags L chk fnet s)) = trace s @ Ev_recovery_server # pre @
            action_calls (decision_table False (should_rollback s) (has_firmware_to_swap s))"
         "flash (snd (main_flags L chk fnet s)) =
            (if should_rollback s \<or> has_firmware_to_swap s
             then swap_images L (swap_size s) (flash s) else flash s)"
      by blast
    have d: "decision_table False (should_rollback s) (has_firmware_to_swap s) = Swap_and_arm"
      using nr hf by (simp add: decision_table_def)
    have "new_events s (snd (main_flags L chk fnet s)) = (Ev_recovery_server # pre) @
        [Ev_swap_images, Ev_mark_pico_has_new_firmware, Ev_mark_is_not_after_rollback,
           Ev_mark_should_rollback, Ev_mark_download_slot_as_invalid, Ev_jump_to_vtor]"
      by (simp add: p(2) d new_events_def)
    then have "suffix
          [Ev_swap_images, Ev_mark_pico_has_new_firmware, Ev_mark_is_not_after_rollback,
           Ev_mark_should_rollback, Ev_mark_download_slot_as_invalid, Ev_jump_to_vtor]
          (new_events s (snd (main_flags L chk fnet s)))"
      by (simp only: suffix_def) blast
    with p(1) p(3) hf show ?thesis by simp
  qed
  from sw(1) ev fl flags(1-4) gp trig fp show ?thesis
    unfolding sc_def by (intro conjI impI) simp_all
qed

theorem swap_and_arm_then_rollback_witness:
  "\<not> should_rollback s_staged \<and> has_firmware_to_swap s_staged \<and>
   \<not> recovery_trigger_gpio pins_high \<and> layout_ok L0 \<and> idle [(True, [])] \<and>
   main_gpio L0 reject_all pins_high [] s_staged = boot_chain L0 s_staged \<and>
   new_events s_staged (snd (boot_chain L0 s_staged)) =
     [Ev_swap_images, Ev_mark_pico_has_new_firmware, Ev_mark_is_not_after_rollback,
      Ev_mark_should_rollback, Ev_mark_download_slot_as_invalid, Ev_jump_to_vtor] \<and>
   should_rollback (snd (boot_chain L0 s_staged)) \<and>
   new_events (snd (boot_chain L0 s_staged))
     (snd (main_gpio L0 reject_all pins_high [] (snd (boot_chain L0 s_staged)))) =
     [Ev_swap_images, Ev_firmware_commit, Ev_mark_pico_has_no_new_firmware,
      Ev_mark_is_after_rollback, Ev_mark_download_slot_as_invalid, Ev_jump_to_vtor] \<and>
   flash (snd (main_gpio L0 reject_all pins_high [] (snd (boot_chain L0 s_staged)))) = fl0 \<and>
   fst (main_flags L0 reject_all [(True, [])] s_staged) = Handoff"
proof -
  note t = swap_and_arm_then_rollback [where L = L0 and chk = reject_all and s = s_staged
      and g = pins_high and net = "[]" and fnet = "[(True, [])]",
      OF s_staged_flags(1) s_staged_flags(2)]
  note g = t [THEN conjunct2, THEN conjunct2, THEN conjunct2, THEN conjunct2, THEN conjunct2,
      THEN conjunct2, THEN conjunct2, THEN conjunct1, THEN mp, OF pins_trigger(1)]
  note f = t [THEN conjunct2, THEN conjunct2, THEN conjunct2, THEN conjunct2, THEN conjunct2,
      THEN conjunct2, THEN conjunct2, THEN conjunct2, THEN conjunct2, THEN mp, OF idle_one]
  have 1: "main_gpio L0 reject_all pins_high [] s_staged = boot_chain L0 s_staged"
    using g by (rule conjunct1)
  have 2: "new_events s_staged (snd (boot_chain L0 s_staged)) =
     [Ev_swap_images, Ev_mark_pico_has_new_firmware, Ev_mark_is_not_after_rollback,
      Ev_mark_should_rollback, Ev_mark_download_slot_as_invalid, Ev_jump_to_vtor]"
    using t [THEN conjunct2, THEN conjunct1] .
  have 3: "should_rollback (snd (boot_chain L0 s_staged))"
    using t [THEN conjunct2, THEN conjunct2, THEN conjunct2, THEN conjunct2, THEN conjunct2,
      THEN conjunct1] .
  have 4: "new_events (snd (boot_chain L0 s_staged))
     (snd (main_gpio L0 reject_all pins_high [] (snd (boot_chain L0 s_staged)))) =
     [Ev_swap_images, Ev_firmware_commit, Ev_mark_pico_has_no_new_firmware,
      Ev_mark_is_after_rollback, Ev_mark_download_slot_as_invalid, Ev_jump_to_vtor]"
    using g [THEN conjunct2, THEN conjunct2, THEN conjunct1] .
  have 5: "flash (snd (main_gpio L0 reject_all pins_high [] (snd (boot_chain L0 s_staged)))) = fl0"
    using g [THEN conjunct2, THEN conjunct2, THEN conjunct2, THEN conjunct1, THEN mp, OF layout_ok_L0]
    by (simp only: s_staged_flags(3))
  have 6: "fst (main_flags L0 reject_all [(True, [])] s_staged) = Handoff"
    using f by (rule conjunct1)
  from s_staged_flags(1) s_staged_flags(2) pins_trigger(1) layout_ok_L0 idle_one 1 2 3 4 5 6
  show ?thesis by (intro conjI)
qed

section \<open>Claims about the recovery page\<close>




end
